theory Spec2Isabelle
  imports Main
begin

section \<open>KantechCalc: the sizing engine of \<^verbatim>\<open>src/KantechCalc.py\<close>\<close>

text \<open>
  The decision logic of the calculator is embedded function by function. Python's
  unbounded integers are \<open>int\<close> (\<open>//\<close> is \<open>div\<close>, both round towards minus infinity),
  dictionaries with a fixed key set are records, \<open>None\<close> results are \<open>option\<close>, a raised
  exception is the \<open>Inl\<close> of a sum. The \<open>print\<close>, \<open>input\<close> and screen-clearing calls
  have no influence on the returned values and are left out.
\<close>

subsection \<open>Device tally and line demand\<close>

record DCDevice =
  dc_number :: int
  smart_card :: int
  fingerprint :: int
  door_sensor :: int
  magnetic_lock :: int
  electric_lock :: int
  rex_button :: int
  push_button :: int
  break_glass :: int
  buzzer :: int
  double_door_lock :: int
  ddl_sensors :: int

text \<open>The dictionary \<^verbatim>\<open>{'readers': .., 'inputs': .., 'outputs': ..}\<close>.\<close>

record dc_totals =
  readers :: int
  inputs :: int
  outputs :: int

definition calculate_totals :: "DCDevice \<Rightarrow> dc_totals" where
  "calculate_totals self =
     \<lparr>readers = smart_card self + fingerprint self,
      inputs = door_sensor self + rex_button self + push_button self +
               break_glass self + buzzer self + magnetic_lock self +
               ddl_sensors self + double_door_lock self,
      outputs = magnetic_lock self + electric_lock self +
                ddl_sensors self + double_door_lock self\<rparr>"

subsection \<open>Costs that may be \<^verbatim>\<open>float('inf')\<close>\<close>

text \<open>
  The two searches start from the sentinel \<^verbatim>\<open>float('inf')\<close> and compare integer costs
  against it; Python compares an \<open>int\<close> with a \<open>float\<close> exactly, so the sentinel is a
  constructor of its own.
\<close>

datatype pycost = Finite int | Infinity

fun cost_lt :: "int \<Rightarrow> pycost \<Rightarrow> bool" where
  "cost_lt c Infinity = True"
| "cost_lt c (Finite b) = (c < b)"

subsection \<open>Controller selection\<close>

text \<open>The dictionary \<open>best_solution\<close> built inside the triple loop.\<close>

record controller_solution =
  kt_400 :: int
  kt_2 :: int
  kt_1 :: int
  readers_provided :: int
  cost :: int
  extra_readers :: int

text \<open>The returned dictionary: \<^verbatim>\<open>{**best_solution, 'inputs_provided': .., 'outputs_provided': ..}\<close>.\<close>

record controller_info = controller_solution +
  inputs_provided :: int
  outputs_provided :: int

text \<open>The loop variables \<open>best_solution\<close> (initially \<open>None\<close>) and \<open>best_cost\<close>.\<close>

type_synonym search_state = "controller_solution option \<times> pycost"

text \<open>The body of the innermost loop.\<close>

definition try_combination :: "int \<Rightarrow> int \<Rightarrow> int \<Rightarrow> int \<Rightarrow> search_state \<Rightarrow> search_state" where
  "try_combination total_readers kt400 kt2 kt1 st =
     (let readers_provided' = kt400 * 4 + kt2 * 2 + kt1 * 1;
          cost' = kt400 * 1400 + kt2 * 750 + kt1 * 450
      in if readers_provided' \<ge> total_readers then
           (if cost_lt cost' (snd st) then
              (Some \<lparr>kt_400 = kt400, kt_2 = kt2, kt_1 = kt1,
                      readers_provided = readers_provided', cost = cost',
                      extra_readers = readers_provided' - total_readers\<rparr>,
               Finite cost')
            else st)
         else st)"

text \<open>
  The three nested \<^verbatim>\<open>for .. in range(max + 1)\<close> loops; \<open>[0..m]\<close> is the list
  \<open>0, 1, .., m\<close> that \<^verbatim>\<open>range(m + 1)\<close> runs through.
\<close>

definition search_controllers :: "int \<Rightarrow> search_state" where
  "search_controllers total_readers =
     (let max_kt400 = max 1 (total_readers div 4 + 2);
          max_kt2 = max 1 (total_readers div 2 + 2);
          max_kt1 = max 1 (total_readers + 2)
      in fold (\<lambda>kt400.
           fold (\<lambda>kt2.
             fold (\<lambda>kt1. try_combination total_readers kt400 kt2 kt1) [0..max_kt1])
           [0..max_kt2])
         [0..max_kt400] (None, Infinity))"

definition select_controllers_for_dc :: "dc_totals \<Rightarrow> controller_info option" where
  "select_controllers_for_dc dc_requirements =
     (let total_readers = readers dc_requirements
      in case fst (search_controllers total_readers) of
           Some best_solution \<Rightarrow>
             (let inputs_provided' = kt_400 best_solution * 16 + kt_2 best_solution * 8 +
                                     kt_1 best_solution * 4;
                  outputs_provided' = kt_400 best_solution * 4 + kt_2 best_solution * 2 +
                                      kt_1 best_solution * 2
              in Some (controller_solution.extend best_solution
                         (controller_info.fields inputs_provided' outputs_provided')))
         | None \<Rightarrow> None)"

subsection \<open>Integers as text and the float division of the fallback\<close>

text \<open>Python's \<^verbatim>\<open>str\<close> on an integer, as the f-strings of the fallback use it.\<close>

fun str_nat :: "nat \<Rightarrow> string" where
  "str_nat n = (if n < 10 then [''0123456789'' ! n]
                else str_nat (n div 10) @ [''0123456789'' ! (n mod 10)])"

declare str_nat.simps [simp del]

definition str_int :: "int \<Rightarrow> string" where
  "str_int i = (if i < 0 then CHR ''-'' # str_nat (nat (- i)) else str_nat (nat i))"

text \<open>
  \<^verbatim>\<open>int(np.ceil(shortage / 16))\<close> goes through a float: \<^verbatim>\<open>/\<close> on two Python
  integers is the correctly rounded binary64 quotient, and raises \<open>OverflowError\<close> when
  that quotient does not fit. The divisors here are 16 and 8, powers of two, and the
  shortage is positive, so the quotient is the shortage rounded to 53 significant bits
  (ties to even) and then scaled exactly; \<^verbatim>\<open>np.ceil\<close> and \<^verbatim>\<open>int\<close> are exact on it.
  \<open>float_exponent s\<close> is the number of low bits of \<open>s\<close> that do not fit the mantissa.
\<close>

datatype error = OverflowError

function float_exponent :: "int \<Rightarrow> nat" where
  "float_exponent s = (if s < 2 ^ 53 then 0 else Suc (float_exponent (s div 2)))"
  by pat_completeness auto
termination
  by (relation "measure nat") auto

declare float_exponent.simps [simp del]

definition round_to_double :: "int \<Rightarrow> int" where
  "round_to_double s =
     (let e = float_exponent s; q = s div 2 ^ e; r = s mod 2 ^ e
      in if 2 * r > 2 ^ e \<or> (2 * r = 2 ^ e \<and> odd q) then (q + 1) * 2 ^ e else q * 2 ^ e)"

definition ceil_true_div :: "int \<Rightarrow> int \<Rightarrow> error + int" where
  "ceil_true_div s d =
     (let v = round_to_double s
      in if v \<ge> 2 ^ 1024 * d then Inl OverflowError else Inr (- ((- v) div d)))"

subsection \<open>Expansion modules\<close>

record expansion_module =
  mod_name :: string
  mod_inputs :: int
  mod_outputs :: int
  mod_cost :: int

definition expansion_modules :: "expansion_module list" where
  "expansion_modules =
     [\<lparr>mod_name = ''inout16 (16/0)'', mod_inputs = 16, mod_outputs = 0, mod_cost = 447\<rparr>,
      \<lparr>mod_name = ''inout16 (12/4)'', mod_inputs = 12, mod_outputs = 4, mod_cost = 447\<rparr>,
      \<lparr>mod_name = ''inout16 (8/8)'', mod_inputs = 8, mod_outputs = 8, mod_cost = 447\<rparr>,
      \<lparr>mod_name = ''inout16 (4/12)'', mod_inputs = 4, mod_outputs = 12, mod_cost = 447\<rparr>,
      \<lparr>mod_name = ''inout16 (0/16)'', mod_inputs = 0, mod_outputs = 16, mod_cost = 447\<rparr>,
      \<lparr>mod_name = ''in16'', mod_inputs = 16, mod_outputs = 0, mod_cost = 470\<rparr>,
      \<lparr>mod_name = ''r8'', mod_inputs = 0, mod_outputs = 8, mod_cost = 470\<rparr>]"

text \<open>
  The dictionary \<open>best_solution\<close> of the module search, whose cost starts at
  \<^verbatim>\<open>float('inf')\<close>, and the dictionary the function returns, whose cost is an integer.
\<close>

record module_search =
  best_modules :: "string list"
  best_cost :: pycost

record expansion_solution =
  modules :: "string list"
  expansion_cost :: int

definition try_single :: "int \<Rightarrow> int \<Rightarrow> expansion_module \<Rightarrow> module_search \<Rightarrow> module_search" where
  "try_single input_shortage output_shortage module best_solution =
     (if mod_inputs module \<ge> input_shortage \<and> mod_outputs module \<ge> output_shortage then
        (if cost_lt (mod_cost module) (best_cost best_solution) then
           \<lparr>best_modules = [mod_name module], best_cost = Finite (mod_cost module)\<rparr>
         else best_solution)
      else best_solution)"

definition try_pair ::
  "int \<Rightarrow> int \<Rightarrow> expansion_module \<Rightarrow> expansion_module \<Rightarrow> module_search \<Rightarrow> module_search" where
  "try_pair input_shortage output_shortage module1 module2 best_solution =
     (let total_inputs = mod_inputs module1 + mod_inputs module2;
          total_outputs = mod_outputs module1 + mod_outputs module2;
          total_cost' = mod_cost module1 + mod_cost module2
      in if total_inputs \<ge> input_shortage \<and> total_outputs \<ge> output_shortage then
           (if cost_lt total_cost' (best_cost best_solution) then
              \<lparr>best_modules = [mod_name module1, mod_name module2], best_cost = Finite total_cost'\<rparr>
            else best_solution)
         else best_solution)"

text \<open>The single-module loop followed by the two nested pair loops.\<close>

definition search_modules :: "int \<Rightarrow> int \<Rightarrow> module_search" where
  "search_modules input_shortage output_shortage =
     fold (\<lambda>module1. fold (try_pair input_shortage output_shortage module1) expansion_modules)
       expansion_modules
       (fold (try_single input_shortage output_shortage) expansion_modules
          \<lparr>best_modules = [], best_cost = Infinity\<rparr>)"

text \<open>The fallback branch: \<open>in16\<close> units for the inputs, then \<open>r8\<close> units for the outputs.\<close>

definition add_input_modules :: "int \<Rightarrow> error + (string list \<times> int)" where
  "add_input_modules input_shortage =
     (if input_shortage > 0 then
        (case ceil_true_div input_shortage 16 of
           Inl e \<Rightarrow> Inl e
         | Inr in16_needed \<Rightarrow>
             Inr ([] @ [''in16 (x'' @ str_int in16_needed @ '')''], 0 + 470 * in16_needed))
      else Inr ([], 0))"

definition add_output_modules :: "int \<Rightarrow> string list \<times> int \<Rightarrow> error + (string list \<times> int)" where
  "add_output_modules output_shortage acc =
     (if output_shortage > 0 then
        (case ceil_true_div output_shortage 8 of
           Inl e \<Rightarrow> Inl e
         | Inr r8_needed \<Rightarrow>
             Inr (fst acc @ [''r8 (x'' @ str_int r8_needed @ '')''], snd acc + 470 * r8_needed))
      else Inr acc)"

definition specialized_modules :: "int \<Rightarrow> int \<Rightarrow> error + expansion_solution" where
  "specialized_modules input_shortage output_shortage =
     (case add_input_modules input_shortage of
        Inl e \<Rightarrow> Inl e
      | Inr acc \<Rightarrow>
          (case add_output_modules output_shortage acc of
             Inl e \<Rightarrow> Inl e
           | Inr (expansion_modules', expansion_cost') \<Rightarrow>
               Inr \<lparr>modules = expansion_modules', expansion_cost = expansion_cost'\<rparr>))"

definition calculate_expansion_for_dc :: "int \<Rightarrow> int \<Rightarrow> int \<Rightarrow> int \<Rightarrow> error + expansion_solution" where
  "calculate_expansion_for_dc dc_inputs dc_outputs controller_inputs controller_outputs =
     (let input_shortage = max 0 (dc_inputs - controller_inputs);
          output_shortage = max 0 (dc_outputs - controller_outputs)
      in if input_shortage = 0 \<and> output_shortage = 0 then
           Inr \<lparr>modules = [], expansion_cost = 0\<rparr>
         else
           (let best_solution = search_modules input_shortage output_shortage
            in case best_cost best_solution of
                 Infinity \<Rightarrow> specialized_modules input_shortage output_shortage
               | Finite c \<Rightarrow> Inr \<lparr>modules = best_modules best_solution, expansion_cost = c\<rparr>))"

subsection \<open>One line: controllers, then expansion modules\<close>

text \<open>The dictionary returned for a line; \<open>line_dc_number\<close> is its key \<^verbatim>\<open>'dc_number'\<close>.\<close>

record line_result =
  line_dc_number :: int
  requirements :: dc_totals
  controllers :: controller_info
  expansion :: expansion_solution
  total_cost :: int

text \<open>
  The callers of the Controller Selector test its result (\<^verbatim>\<open>if not controller_info\<close>,
  \<^verbatim>\<open>if result\<close>, \<^verbatim>\<open>if controller_info\<close>). To state what they do with a missing
  allocation, the functions below take the selector \<^verbatim>\<open>self.select_controllers_for_dc\<close>
  as the parameter \<open>select\<close>; the methods of the class are the instances at
  \<open>select_controllers_for_dc\<close>. An exception of the expansion step is not caught by
  any of them.
\<close>

definition calculate_single_dc_line_with ::
  "(dc_totals \<Rightarrow> controller_info option) \<Rightarrow> DCDevice \<Rightarrow> error + line_result option" where
  "calculate_single_dc_line_with select dc_line =
     (let dc_totals' = calculate_totals dc_line
      in case select dc_totals' of
           None \<Rightarrow> Inr None
         | Some controller_info' \<Rightarrow>
             (case calculate_expansion_for_dc (inputs dc_totals') (outputs dc_totals')
                     (inputs_provided controller_info') (outputs_provided controller_info') of
                Inl e \<Rightarrow> Inl e
              | Inr expansion' \<Rightarrow>
                  Inr (Some \<lparr>line_dc_number = dc_number dc_line,
                             requirements = dc_totals',
                             controllers = controller_info',
                             expansion = expansion',
                             total_cost = cost controller_info' + expansion_cost expansion'\<rparr>)))"

definition calculate_single_dc_line :: "DCDevice \<Rightarrow> error + line_result option" where
  "calculate_single_dc_line = calculate_single_dc_line_with select_controllers_for_dc"

subsection \<open>All lines\<close>

text \<open>The first loop of \<open>calculate_all_dc_lines\<close>: a line without a result is not appended.\<close>

fun collect_results ::
  "(dc_totals \<Rightarrow> controller_info option) \<Rightarrow> DCDevice list \<Rightarrow> error + line_result list" where
  "collect_results select [] = Inr []"
| "collect_results select (dc_line # rest) =
     (case calculate_single_dc_line_with select dc_line of
        Inl e \<Rightarrow> Inl e
      | Inr None \<Rightarrow> collect_results select rest
      | Inr (Some result) \<Rightarrow>
          (case collect_results select rest of
             Inl e \<Rightarrow> Inl e
           | Inr all_results' \<Rightarrow> Inr (result # all_results')))"

text \<open>The five accumulators of the summary loop, and its body.\<close>

record fleet_totals =
  grand_total_cost :: int
  total_kt400 :: int
  total_kt2 :: int
  total_kt1 :: int
  total_expansion_cost :: int

definition accumulate :: "line_result \<Rightarrow> fleet_totals \<Rightarrow> fleet_totals" where
  "accumulate result acc =
     \<lparr>grand_total_cost = grand_total_cost acc + total_cost result,
      total_kt400 = total_kt400 acc + kt_400 (controllers result),
      total_kt2 = total_kt2 acc + kt_2 (controllers result),
      total_kt1 = total_kt1 acc + kt_1 (controllers result),
      total_expansion_cost = total_expansion_cost acc + expansion_cost (expansion result)\<rparr>"

text \<open>
  What the summary prints and what is stored in \<^verbatim>\<open>self.all_results\<close> and
  \<^verbatim>\<open>self.grand_total\<close> (the field \<open>grand_total_cost\<close>).
\<close>

record fleet_result = fleet_totals +
  all_results :: "line_result list"

definition calculate_all_dc_lines_with ::
  "(dc_totals \<Rightarrow> controller_info option) \<Rightarrow> DCDevice list \<Rightarrow> error + fleet_result option" where
  "calculate_all_dc_lines_with select dc_lines =
     (if dc_lines = [] then Inr None
      else case collect_results select dc_lines of
             Inl e \<Rightarrow> Inl e
           | Inr all_results' \<Rightarrow>
               if all_results' = [] then Inr None
               else Inr (Some (fleet_totals.extend
                        (fold accumulate all_results'
                           \<lparr>grand_total_cost = 0, total_kt400 = 0, total_kt2 = 0, total_kt1 = 0,
                            total_expansion_cost = 0\<rparr>)
                        (fleet_result.fields all_results'))))"

definition calculate_all_dc_lines :: "DCDevice list \<Rightarrow> error + fleet_result option" where
  "calculate_all_dc_lines = calculate_all_dc_lines_with select_controllers_for_dc"

subsection \<open>Controller totals and the license\<close>

record controller_totals =
  total_controllers :: int
  sum_kt_400 :: int
  sum_kt_2 :: int
  sum_kt_1 :: int
  breakdown :: "string option"

definition add_controllers ::
  "(dc_totals \<Rightarrow> controller_info option) \<Rightarrow> DCDevice \<Rightarrow> int \<times> int \<times> int \<Rightarrow> int \<times> int \<times> int" where
  "add_controllers select dc_line acc =
     (case acc of (total_kt400', total_kt2', total_kt1') \<Rightarrow>
        (case select (calculate_totals dc_line) of
           Some controller_info' \<Rightarrow>
             (total_kt400' + kt_400 controller_info', total_kt2' + kt_2 controller_info',
              total_kt1' + kt_1 controller_info')
         | None \<Rightarrow> acc))"

definition calculate_total_controllers_with ::
  "(dc_totals \<Rightarrow> controller_info option) \<Rightarrow> DCDevice list \<Rightarrow> controller_totals" where
  "calculate_total_controllers_with select dc_lines =
     (if dc_lines = [] then
        \<lparr>total_controllers = 0, sum_kt_400 = 0, sum_kt_2 = 0, sum_kt_1 = 0, breakdown = None\<rparr>
      else case fold (add_controllers select) dc_lines (0, 0, 0) of
             (total_kt400', total_kt2', total_kt1') \<Rightarrow>
               \<lparr>total_controllers = total_kt400' + total_kt2' + total_kt1',
                sum_kt_400 = total_kt400', sum_kt_2 = total_kt2', sum_kt_1 = total_kt1',
                breakdown = Some (''kt-400: '' @ str_int total_kt400' @ '', kt-2: '' @
                                  str_int total_kt2' @ '', kt-1: '' @ str_int total_kt1')\<rparr>)"

definition calculate_total_controllers :: "DCDevice list \<Rightarrow> controller_totals" where
  "calculate_total_controllers = calculate_total_controllers_with select_controllers_for_dc"

text \<open>The entries of \<^verbatim>\<open>self.license_info\<close> that the decision reads: name and cost.\<close>

record license_entry =
  license_name :: string
  license_cost :: int

definition license_info_special :: license_entry where
  "license_info_special = \<lparr>license_name = ''Kantech Special License'', license_cost = 0\<rparr>"

definition license_info_corporate :: license_entry where
  "license_info_corporate = \<lparr>license_name = ''Kantech Corporate License'', license_cost = 0\<rparr>"

definition license_info_global :: license_entry where
  "license_info_global = \<lparr>license_name = ''Global License'', license_cost = 0\<rparr>"

definition license_info_gateway :: license_entry where
  "license_info_gateway = \<lparr>license_name = ''Gateway License'', license_cost = 500\<rparr>"

definition license_info_redundancy :: license_entry where
  "license_info_redundancy = \<lparr>license_name = ''Redundancy License'', license_cost = 750\<rparr>"

text \<open>The attribute \<^verbatim>\<open>self.license_result\<close>; \<open>license_total_controllers\<close> is its key
  \<^verbatim>\<open>'total_controllers'\<close>.\<close>

record license_result =
  license_total_controllers :: int
  primary_license :: string
  use_redundancy :: bool
  additional_licenses :: "license_entry list"
  total_license_cost :: int
  controller_breakdown :: controller_totals

text \<open>
  The decision of \<open>calculate_license_requirements\<close> once the controller totals are known.
  \<open>None\<close> is the early return at zero controllers, which stores no license result.
\<close>

definition license_decision :: "controller_totals \<Rightarrow> bool \<Rightarrow> license_result option" where
  "license_decision controller_totals' use_redundancy' =
     (let total_controllers' = total_controllers controller_totals'
      in if total_controllers' = 0 then None
         else
           (let (license_type, additional_licenses') =
                  (if use_redundancy' then
                     (''global'',
                      [\<lparr>license_name = license_name license_info_gateway,
                        license_cost = license_cost license_info_gateway\<rparr>,
                       \<lparr>license_name = license_name license_info_redundancy,
                        license_cost = license_cost license_info_redundancy\<rparr>])
                   else
                     (if total_controllers' \<le> 32 then ''special'' else ''corporate'', []));
                total_license_cost' =
                  (if use_redundancy' then
                     license_cost license_info_gateway + license_cost license_info_redundancy
                   else 0)
            in Some \<lparr>license_total_controllers = total_controllers',
                     primary_license = license_type,
                     use_redundancy = use_redundancy',
                     additional_licenses = additional_licenses',
                     total_license_cost = total_license_cost',
                     controller_breakdown = controller_totals'\<rparr>))"

definition calculate_license_requirements :: "DCDevice list \<Rightarrow> bool \<Rightarrow> license_result option" where
  "calculate_license_requirements dc_lines use_redundancy' =
     license_decision (calculate_total_controllers dc_lines) use_redundancy'"

section \<open>Notions used to state and prove the properties\<close>

subsection \<open>The search space of the Controller Selector\<close>

text \<open>
  A combination is a triple of counts (kt-400, kt-2, kt-1). \<open>feasible\<close> is the test
  \<^verbatim>\<open>readers_provided >= total_readers\<close> of the loop body, \<open>combo_cost\<close> its cost
  expression, \<open>solution_of\<close> the dictionary it stores, \<open>search_space\<close> the set of triples
  the three ranges run through, and \<open>search_inv\<close> the loop invariant: the state holds a
  cheapest feasible combination among those tried so far.
\<close>

definition feasible :: "int \<Rightarrow> int \<times> int \<times> int \<Rightarrow> bool" where
  "feasible r t = (case t of (a, b, c) \<Rightarrow> a * 4 + b * 2 + c * 1 \<ge> r)"

definition combo_cost :: "int \<times> int \<times> int \<Rightarrow> int" where
  "combo_cost t = (case t of (a, b, c) \<Rightarrow> a * 1400 + b * 750 + c * 450)"

definition solution_of :: "int \<Rightarrow> int \<times> int \<times> int \<Rightarrow> controller_solution" where
  "solution_of r t = (case t of (a, b, c) \<Rightarrow>
     \<lparr>kt_400 = a, kt_2 = b, kt_1 = c, readers_provided = a * 4 + b * 2 + c * 1,
      cost = a * 1400 + b * 750 + c * 450, extra_readers = a * 4 + b * 2 + c * 1 - r\<rparr>)"

definition search_inv :: "int \<Rightarrow> (int \<times> int \<times> int) set \<Rightarrow> search_state \<Rightarrow> bool" where
  "search_inv r S st =
     (case st of
        (None, Infinity) \<Rightarrow> (\<forall>t\<in>S. \<not> feasible r t)
      | (Some s, Finite c) \<Rightarrow>
          (\<exists>t\<in>S. feasible r t \<and> s = solution_of r t \<and> c = combo_cost t \<and>
                 (\<forall>u\<in>S. feasible r u \<longrightarrow> c \<le> combo_cost u))
      | _ \<Rightarrow> False)"

definition search_space :: "int \<Rightarrow> (int \<times> int \<times> int) set" where
  "search_space r = {(a, b, c) | a b c.
      0 \<le> a \<and> a \<le> max 1 (r div 4 + 2) \<and> 0 \<le> b \<and> b \<le> max 1 (r div 2 + 2) \<and>
      0 \<le> c \<and> c \<le> max 1 (r + 2)}"

subsection \<open>The candidates of the module search\<close>

text \<open>
  A candidate is what one iteration of a module loop offers: the names to store, the summed
  input and output capacities and the summed cost. \<open>try_candidate\<close> is the common shape of
  the two loop bodies and \<open>module_inv\<close> the invariant of the search.
\<close>

type_synonym candidate = "string list \<times> int \<times> int \<times> int"

definition cand_cost :: "candidate \<Rightarrow> int" where
  "cand_cost c = snd (snd (snd c))"

definition covers :: "int \<Rightarrow> int \<Rightarrow> candidate \<Rightarrow> bool" where
  "covers input_shortage output_shortage c =
     (case c of (ns, i, out, k) \<Rightarrow> i \<ge> input_shortage \<and> out \<ge> output_shortage)"

definition try_candidate :: "int \<Rightarrow> int \<Rightarrow> candidate \<Rightarrow> module_search \<Rightarrow> module_search" where
  "try_candidate input_shortage output_shortage c best =
     (if covers input_shortage output_shortage c then
        (if cost_lt (cand_cost c) (best_cost best) then
           \<lparr>best_modules = fst c, best_cost = Finite (cand_cost c)\<rparr>
         else best)
      else best)"

definition single_candidate :: "expansion_module \<Rightarrow> candidate" where
  "single_candidate m = ([mod_name m], mod_inputs m, mod_outputs m, mod_cost m)"

definition pair_candidate :: "expansion_module \<Rightarrow> expansion_module \<Rightarrow> candidate" where
  "pair_candidate m1 m2 =
     ([mod_name m1, mod_name m2], mod_inputs m1 + mod_inputs m2,
      mod_outputs m1 + mod_outputs m2, mod_cost m1 + mod_cost m2)"

definition module_inv :: "int \<Rightarrow> int \<Rightarrow> candidate set \<Rightarrow> module_search \<Rightarrow> bool" where
  "module_inv input_shortage output_shortage S best =
     (case best_cost best of
        Infinity \<Rightarrow> (\<forall>c\<in>S. \<not> covers input_shortage output_shortage c)
      | Finite k \<Rightarrow>
          (\<exists>c\<in>S. covers input_shortage output_shortage c \<and> best_modules best = fst c \<and>
                  k = cand_cost c \<and>
                  (\<forall>u\<in>S. covers input_shortage output_shortage u \<longrightarrow> k \<le> cand_cost u)))"

definition single_candidates :: "candidate set" where
  "single_candidates = single_candidate ` set expansion_modules"

definition pair_candidates :: "candidate set" where
  "pair_candidates =
     {pair_candidate m1 m2 | m1 m2. m1 \<in> set expansion_modules \<and> m2 \<in> set expansion_modules}"

subsection \<open>Concrete lines\<close>

text \<open>A line without devices, from which the concrete tallies below are built.\<close>

definition empty_line :: DCDevice where
  "empty_line = \<lparr>dc_number = 1, smart_card = 0, fingerprint = 0, door_sensor = 0,
     magnetic_lock = 0, electric_lock = 0, rex_button = 0, push_button = 0, break_glass = 0,
     buzzer = 0, double_door_lock = 0, ddl_sensors = 0\<rparr>"

subsection \<open>Units of the fallback and single-field increases\<close>

text \<open>
  The count of units the fallback buys for one shortage: nothing when the shortage is not
  positive, else the float ceiling.
\<close>

definition units_needed :: "int \<Rightarrow> int \<Rightarrow> error + int" where
  "units_needed shortage capacity =
     (if shortage > 0 then ceil_true_div shortage capacity else Inr 0)"

text \<open>The eleven tallies of a line, and raising one of them by one.\<close>

datatype tally_field =
  Smart_card | Fingerprint | Door_sensor | Magnetic_lock | Electric_lock | Rex_button |
  Push_button | Break_glass | Buzzer | Double_door_lock | Ddl_sensors

fun increase :: "tally_field \<Rightarrow> DCDevice \<Rightarrow> DCDevice" where
  "increase Smart_card t = t\<lparr>smart_card := smart_card t + 1\<rparr>"
| "increase Fingerprint t = t\<lparr>fingerprint := fingerprint t + 1\<rparr>"
| "increase Door_sensor t = t\<lparr>door_sensor := door_sensor t + 1\<rparr>"
| "increase Magnetic_lock t = t\<lparr>magnetic_lock := magnetic_lock t + 1\<rparr>"
| "increase Electric_lock t = t\<lparr>electric_lock := electric_lock t + 1\<rparr>"
| "increase Rex_button t = t\<lparr>rex_button := rex_button t + 1\<rparr>"
| "increase Push_button t = t\<lparr>push_button := push_button t + 1\<rparr>"
| "increase Break_glass t = t\<lparr>break_glass := break_glass t + 1\<rparr>"
| "increase Buzzer t = t\<lparr>buzzer := buzzer t + 1\<rparr>"
| "increase Double_door_lock t = t\<lparr>double_door_lock := double_door_lock t + 1\<rparr>"
| "increase Ddl_sensors t = t\<lparr>ddl_sensors := ddl_sensors t + 1\<rparr>"

section \<open>The Line Requirement Model and the Controller Selector\<close>

lemma search_inv_step:
  assumes "search_inv r S st"
  shows "search_inv r (insert (a, b, c) S) (try_combination r a b c st)"
proof (cases st)
  case (Pair bs bc)
  show ?thesis
  proof (cases bs)
    case None
    with Pair assms obtain "bc = Infinity" and nof: "\<forall>t\<in>S. \<not> feasible r t"
      by (cases bc) (auto simp: search_inv_def)
    then show ?thesis using Pair None
      by (auto simp: search_inv_def try_combination_def feasible_def combo_cost_def solution_of_def Let_def)
  next
    case (Some s)
    with Pair assms obtain c0 where bc: "bc = Finite c0"
      by (cases bc) (auto simp: search_inv_def)
    from assms Pair Some bc obtain t where t: "t \<in> S" "feasible r t" "s = solution_of r t"
      "c0 = combo_cost t" "\<forall>u\<in>S. feasible r u \<longrightarrow> c0 \<le> combo_cost u"
      by (auto simp: search_inv_def)
    show ?thesis
    proof (cases "feasible r (a, b, c) \<and> combo_cost (a, b, c) < c0")
      case True
      then have "try_combination r a b c st = (Some (solution_of r (a, b, c)), Finite (combo_cost (a, b, c)))"
        using Pair bc by (simp add: try_combination_def feasible_def combo_cost_def solution_of_def Let_def)
      moreover have "\<forall>u\<in>insert (a, b, c) S. feasible r u \<longrightarrow> combo_cost (a, b, c) \<le> combo_cost u"
        using True t(5) by force
      ultimately show ?thesis using True
        by (auto simp: search_inv_def)
    next
      case False
      then have "try_combination r a b c st = st"
        using Pair bc by (auto simp add: try_combination_def feasible_def combo_cost_def Let_def)
      moreover have "\<forall>u\<in>insert (a, b, c) S. feasible r u \<longrightarrow> c0 \<le> combo_cost u"
        using False t(5) by force
      ultimately show ?thesis using Pair Some bc t
        by (auto simp: search_inv_def)
    qed
  qed
qed

lemma search_inv_kt1:
  "search_inv r S st \<Longrightarrow>
   search_inv r (S \<union> {(a, b, c) | c. c \<in> set cs}) (fold (try_combination r a b) cs st)"
proof (induction cs arbitrary: S st)
  case Nil
  then show ?case by simp
next
  case (Cons c cs)
  have "search_inv r (insert (a, b, c) S \<union> {(a, b, c') | c'. c' \<in> set cs})
          (fold (try_combination r a b) cs (try_combination r a b c st))"
    by (rule Cons.IH) (rule search_inv_step [OF Cons.prems])
  moreover have "insert (a, b, c) S \<union> {(a, b, c') | c'. c' \<in> set cs}
                 = S \<union> {(a, b, c') | c'. c' \<in> set (c # cs)}"
    by auto
  ultimately show ?case by simp
qed

lemma search_inv_kt2:
  "search_inv r S st \<Longrightarrow>
   search_inv r (S \<union> {(a, b, c) | b c. b \<in> set bs \<and> c \<in> set cs})
     (fold (\<lambda>b. fold (try_combination r a b) cs) bs st)"
proof (induction bs arbitrary: S st)
  case Nil
  then show ?case by simp
next
  case (Cons b bs)
  have "search_inv r ((S \<union> {(a, b, c) | c. c \<in> set cs}) \<union> {(a, b', c) | b' c. b' \<in> set bs \<and> c \<in> set cs})
          (fold (\<lambda>b. fold (try_combination r a b) cs) bs (fold (try_combination r a b) cs st))"
    by (rule Cons.IH) (rule search_inv_kt1 [OF Cons.prems])
  moreover have "(S \<union> {(a, b, c) | c. c \<in> set cs}) \<union> {(a, b', c) | b' c. b' \<in> set bs \<and> c \<in> set cs}
                 = S \<union> {(a, b', c) | b' c. b' \<in> set (b # bs) \<and> c \<in> set cs}"
    by auto
  ultimately show ?case by simp
qed

lemma search_inv_kt400:
  "search_inv r S st \<Longrightarrow>
   search_inv r (S \<union> {(a, b, c) | a b c. a \<in> set as \<and> b \<in> set bs \<and> c \<in> set cs})
     (fold (\<lambda>a. fold (\<lambda>b. fold (try_combination r a b) cs) bs) as st)"
proof (induction as arbitrary: S st)
  case Nil
  then show ?case by simp
next
  case (Cons a as)
  have "search_inv r ((S \<union> {(a, b, c) | b c. b \<in> set bs \<and> c \<in> set cs}) \<union>
           {(a', b, c) | a' b c. a' \<in> set as \<and> b \<in> set bs \<and> c \<in> set cs})
          (fold (\<lambda>a. fold (\<lambda>b. fold (try_combination r a b) cs) bs) as
             (fold (\<lambda>b. fold (try_combination r a b) cs) bs st))"
    by (rule Cons.IH) (rule search_inv_kt2 [OF Cons.prems])
  moreover have "(S \<union> {(a, b, c) | b c. b \<in> set bs \<and> c \<in> set cs}) \<union>
           {(a', b, c) | a' b c. a' \<in> set as \<and> b \<in> set bs \<and> c \<in> set cs}
           = S \<union> {(a', b, c) | a' b c. a' \<in> set (a # as) \<and> b \<in> set bs \<and> c \<in> set cs}"
    by auto
  ultimately show ?case by simp
qed

lemma search_controllers_inv: "search_inv r (search_space r) (search_controllers r)"
proof -
  have "search_inv r {} (None, Infinity)" by (simp add: search_inv_def)
  from search_inv_kt400 [OF this, of "[0..max 1 (r div 4 + 2)]" "[0..max 1 (r div 2 + 2)]" "[0..max 1 (r + 2)]"]
  show ?thesis
    unfolding search_controllers_def Let_def search_space_def by simp
qed

lemma dominated:
  assumes "0 \<le> a" "0 \<le> b" "0 \<le> c" "feasible r (a, b, c)"
  shows "\<exists>u\<in>search_space r. feasible r u \<and> combo_cost u \<le> combo_cost (a, b, c)"
proof -
  consider (A) "a \<ge> r div 4 + 1" | (B) "a \<le> r div 4" "b \<ge> r div 2 + 1"
    | (C) "a \<le> r div 4" "b \<le> r div 2" "c \<ge> r" | (D) "a \<le> r div 4" "b \<le> r div 2" "c < r"
    by linarith
  then show ?thesis
  proof cases
    case A
    define k where "k = max 0 (r div 4 + 1)"
    have "r \<le> max 0 (r div 4 + 1) * 4" by presburger
    then have k: "0 \<le> k" "k \<le> max 1 (r div 4 + 2)" "r \<le> k * 4" "k \<le> a"
      using A assms(1) unfolding k_def by (auto simp: max_def split: if_splits)
    have "(k, 0, 0) \<in> search_space r" using k by (auto simp: search_space_def)
    moreover have "feasible r (k, 0, 0)" using k by (simp add: feasible_def)
    moreover have "combo_cost (k, 0, 0) \<le> combo_cost (a, b, c)"
      using k assms by (simp add: combo_cost_def)
    ultimately show ?thesis by blast
  next
    case B
    define k where "k = max 0 (r div 2 + 1)"
    have "r \<le> max 0 (r div 2 + 1) * 2" by presburger
    then have k: "0 \<le> k" "k \<le> max 1 (r div 2 + 2)" "r \<le> k * 2" "k \<le> b"
      using B assms(2) unfolding k_def by (auto simp: max_def split: if_splits)
    have "(0, k, 0) \<in> search_space r" using k by (auto simp: search_space_def)
    moreover have "feasible r (0, k, 0)" using k by (simp add: feasible_def)
    moreover have "combo_cost (0, k, 0) \<le> combo_cost (a, b, c)"
      using k assms by (simp add: combo_cost_def)
    ultimately show ?thesis by blast
  next
    case C
    define k where "k = max 0 r"
    have "r \<le> max 0 r" by simp
    then have k: "0 \<le> k" "k \<le> max 1 (r + 2)" "r \<le> k" "k \<le> c"
      using C assms(3) unfolding k_def by (auto simp: max_def split: if_splits)
    have "(0, 0, k) \<in> search_space r" using k by (auto simp: search_space_def)
    moreover have "feasible r (0, 0, k)" using k by (simp add: feasible_def)
    moreover have "combo_cost (0, 0, k) \<le> combo_cost (a, b, c)"
      using k assms by (simp add: combo_cost_def)
    ultimately show ?thesis by blast
  next
    case D
    then have "(a, b, c) \<in> search_space r" using assms by (auto simp: search_space_def)
    then show ?thesis using assms by blast
  qed
qed

lemma search_space_cost_nonneg: "t \<in> search_space r \<Longrightarrow> 0 \<le> combo_cost t"
  by (auto simp: search_space_def combo_cost_def)

lemma search_space_feasible: "\<exists>t\<in>search_space r. feasible r t"
proof (cases "0 \<le> r")
  case True
  have "r \<le> (r div 4 + 1) * 4" by presburger
  moreover have "0 \<le> r div 4" using True by simp
  ultimately have "(r div 4 + 1, 0, 0) \<in> search_space r \<and> feasible r (r div 4 + 1, 0, 0)"
    by (auto simp: search_space_def feasible_def)
  then show ?thesis by blast
next
  case False
  then have "(0, 0, 0) \<in> search_space r \<and> feasible r (0, 0, 0)"
    by (auto simp: search_space_def feasible_def)
  then show ?thesis by blast
qed

lemma search_controllers_result:
  obtains t where "t \<in> search_space r" "feasible r t"
    "search_controllers r = (Some (solution_of r t), Finite (combo_cost t))"
    "\<forall>u\<in>search_space r. feasible r u \<longrightarrow> combo_cost t \<le> combo_cost u"
proof -
  obtain bs bc where st: "search_controllers r = (bs, bc)" by (cases "search_controllers r")
  have inv: "search_inv r (search_space r) (bs, bc)"
    using search_controllers_inv [of r] st by simp
  obtain u where u: "u \<in> search_space r" "feasible r u"
    using search_space_feasible by blast
  show thesis
  proof (cases bs)
    case None
    with inv u show ?thesis by (cases bc) (auto simp: search_inv_def)
  next
    case (Some s)
    with inv obtain c0 where "bc = Finite c0" by (cases bc) (auto simp: search_inv_def)
    with inv Some st that show ?thesis by (auto simp: search_inv_def)
  qed
qed

lemma select_controllers_result:
  obtains a b c where "(a, b, c) \<in> search_space (readers d)" "feasible (readers d) (a, b, c)"
    "select_controllers_for_dc d =
       Some \<lparr>kt_400 = a, kt_2 = b, kt_1 = c, readers_provided = a * 4 + b * 2 + c * 1,
             cost = a * 1400 + b * 750 + c * 450, extra_readers = a * 4 + b * 2 + c * 1 - readers d,
             inputs_provided = a * 16 + b * 8 + c * 4, outputs_provided = a * 4 + b * 2 + c * 2\<rparr>"
    "\<forall>u\<in>search_space (readers d). feasible (readers d) u \<longrightarrow> combo_cost (a, b, c) \<le> combo_cost u"
proof -
  obtain t where t: "t \<in> search_space (readers d)" "feasible (readers d) t"
    "search_controllers (readers d) = (Some (solution_of (readers d) t), Finite (combo_cost t))"
    "\<forall>u\<in>search_space (readers d). feasible (readers d) u \<longrightarrow> combo_cost t \<le> combo_cost u"
    by (rule search_controllers_result)
  obtain a b c where abc: "t = (a, b, c)" by (cases t)
  have "select_controllers_for_dc d =
       Some \<lparr>kt_400 = a, kt_2 = b, kt_1 = c, readers_provided = a * 4 + b * 2 + c * 1,
             cost = a * 1400 + b * 750 + c * 450, extra_readers = a * 4 + b * 2 + c * 1 - readers d,
             inputs_provided = a * 16 + b * 8 + c * 4, outputs_provided = a * 4 + b * 2 + c * 2\<rparr>"
    using t(3) abc
    by (simp add: select_controllers_for_dc_def solution_of_def Let_def
        controller_solution.extend_def controller_info.fields_def)
  with t abc that show thesis by blast
qed

text \<open>
  Claim C1. For every reader demand the Controller Selector returns an allocation whose
  \<open>readers_provided\<close> meets the demand, whose \<open>readers_provided\<close> and \<open>cost\<close> are
  4, 2, 1 readers and 1400, 750, 450 dollars per kt-400, kt-2, kt-1 unit of the returned
  counts, and no triple of non-negative counts that provides at least the demanded readers
  costs strictly less. The demand need not even be non-negative.
\<close>

theorem controller_selector_optimal:
  "\<exists>s. select_controllers_for_dc d = Some s \<and>
       readers_provided s \<ge> readers d \<and>
       readers_provided s = 4 * kt_400 s + 2 * kt_2 s + kt_1 s \<and>
       cost s = 1400 * kt_400 s + 750 * kt_2 s + 450 * kt_1 s \<and>
       0 \<le> kt_400 s \<and> 0 \<le> kt_2 s \<and> 0 \<le> kt_1 s \<and>
       (\<forall>a b c. 0 \<le> a \<and> 0 \<le> b \<and> 0 \<le> c \<and> 4 * a + 2 * b + c \<ge> readers d
                \<longrightarrow> cost s \<le> 1400 * a + 750 * b + 450 * c)"
proof -
  obtain a b c where r: "(a, b, c) \<in> search_space (readers d)" "feasible (readers d) (a, b, c)"
    "select_controllers_for_dc d =
       Some \<lparr>kt_400 = a, kt_2 = b, kt_1 = c, readers_provided = a * 4 + b * 2 + c * 1,
             cost = a * 1400 + b * 750 + c * 450, extra_readers = a * 4 + b * 2 + c * 1 - readers d,
             inputs_provided = a * 16 + b * 8 + c * 4, outputs_provided = a * 4 + b * 2 + c * 2\<rparr>"
    "\<forall>u\<in>search_space (readers d). feasible (readers d) u \<longrightarrow> combo_cost (a, b, c) \<le> combo_cost u"
    by (rule select_controllers_result)
  have opt: "a * 1400 + b * 750 + c * 450 \<le> 1400 * a' + 750 * b' + 450 * c'"
    if "0 \<le> a'" "0 \<le> b'" "0 \<le> c'" "4 * a' + 2 * b' + c' \<ge> readers d" for a' b' c'
  proof -
    have "feasible (readers d) (a', b', c')" using that by (simp add: feasible_def)
    from dominated [OF that(1-3) this] obtain u where
      "u \<in> search_space (readers d)" "feasible (readers d) u" "combo_cost u \<le> combo_cost (a', b', c')"
      by blast
    with r(4) have "combo_cost (a, b, c) \<le> combo_cost (a', b', c')" by force
    then show ?thesis by (simp add: combo_cost_def)
  qed
  from r(1) have "0 \<le> a" "0 \<le> b" "0 \<le> c" by (auto simp: search_space_def)
  with r(2,3) opt show ?thesis by (simp add: feasible_def)
qed

text \<open>
  The theorem at a demand of 3 readers, against the combination of one kt-400.
\<close>

theorem controller_selector_optimal_witness:
  "\<exists>s. select_controllers_for_dc \<lparr>readers = 3, inputs = 16, outputs = 0\<rparr> = Some s \<and>
       readers_provided s \<ge> 3 \<and> cost s \<le> 1400"
proof -
  from controller_selector_optimal [of "\<lparr>readers = 3, inputs = 16, outputs = 0\<rparr>"]
  obtain s where s: "select_controllers_for_dc \<lparr>readers = 3, inputs = 16, outputs = 0\<rparr> = Some s"
    "readers_provided s \<ge> 3"
    "\<forall>a b c. 0 \<le> a \<and> 0 \<le> b \<and> 0 \<le> c \<and> 4 * a + 2 * b + c \<ge> 3
                \<longrightarrow> cost s \<le> 1400 * a + 750 * b + 450 * c"
    by auto
  from s(3) have "(0::int) \<le> 1 \<and> (0::int) \<le> 0 \<and> (0::int) \<le> 0 \<and> 4 * 1 + 2 * 0 + 0 \<ge> (3::int)
                \<longrightarrow> cost s \<le> 1400 * 1 + 750 * 0 + 450 * 0" by blast
  then have "cost s \<le> 1400" by simp
  with s(1,2) show ?thesis by blast
qed

text \<open>
  Claim C7. The search bounds always contain a feasible combination, so the selector
  returns an allocation for every demand (its \<open>None\<close> branch is unreachable), and for a
  demand of 0 readers that allocation is zero units at cost 0.
\<close>

theorem selector_always_feasible:
  "(\<exists>t\<in>search_space (readers d). feasible (readers d) t) \<and>
   select_controllers_for_dc d \<noteq> None \<and>
   (readers d = 0 \<longrightarrow>
      select_controllers_for_dc d =
        Some \<lparr>kt_400 = 0, kt_2 = 0, kt_1 = 0, readers_provided = 0, cost = 0, extra_readers = 0,
              inputs_provided = 0, outputs_provided = 0\<rparr>)"
proof (intro conjI impI)
  show "\<exists>t\<in>search_space (readers d). feasible (readers d) t" by (rule search_space_feasible)
next
  show "select_controllers_for_dc d \<noteq> None"
    by (rule select_controllers_result [of d]) simp
next
  assume r0: "readers d = 0"
  obtain a b c where r: "(a, b, c) \<in> search_space (readers d)"
    "select_controllers_for_dc d =
       Some \<lparr>kt_400 = a, kt_2 = b, kt_1 = c, readers_provided = a * 4 + b * 2 + c * 1,
             cost = a * 1400 + b * 750 + c * 450, extra_readers = a * 4 + b * 2 + c * 1 - readers d,
             inputs_provided = a * 16 + b * 8 + c * 4, outputs_provided = a * 4 + b * 2 + c * 2\<rparr>"
    "\<forall>u\<in>search_space (readers d). feasible (readers d) u \<longrightarrow> combo_cost (a, b, c) \<le> combo_cost u"
    by (rule select_controllers_result)
  have "(0, 0, 0) \<in> search_space (readers d)" "feasible (readers d) (0, 0, 0)"
    using r0 by (auto simp: search_space_def feasible_def)
  with r(3) have "combo_cost (a, b, c) \<le> combo_cost (0, 0, 0)" by blast
  moreover from r(1) have "0 \<le> a" "0 \<le> b" "0 \<le> c" by (auto simp: search_space_def)
  ultimately have "a = 0 \<and> b = 0 \<and> c = 0" by (simp add: combo_cost_def)
  with r(2) r0 show "select_controllers_for_dc d =
        Some \<lparr>kt_400 = 0, kt_2 = 0, kt_1 = 0, readers_provided = 0, cost = 0, extra_readers = 0,
              inputs_provided = 0, outputs_provided = 0\<rparr>" by simp
qed

text \<open>
  The theorem at a demand of 0 readers.
\<close>

theorem selector_always_feasible_witness:
  "select_controllers_for_dc \<lparr>readers = 0, inputs = 5, outputs = 7\<rparr> =
     Some \<lparr>kt_400 = 0, kt_2 = 0, kt_1 = 0, readers_provided = 0, cost = 0, extra_readers = 0,
           inputs_provided = 0, outputs_provided = 0\<rparr>"
  using selector_always_feasible [of "\<lparr>readers = 0, inputs = 5, outputs = 7\<rparr>"] by simp

text \<open>
  Claim C10. Two device tallies with the same sum of smart-card and fingerprint readers get
  the same allocation from the Controller Selector, whatever their other nine counts are:
  the whole returned dictionary is equal.
\<close>

theorem selector_depends_on_readers_only:
  "smart_card t1 + fingerprint t1 = smart_card t2 + fingerprint t2 \<Longrightarrow>
   select_controllers_for_dc (calculate_totals t1) = select_controllers_for_dc (calculate_totals t2)"
  by (simp add: select_controllers_for_dc_def calculate_totals_def)

text \<open>
  The theorem at two lines with two readers each and different other devices.
\<close>

theorem selector_depends_on_readers_only_witness:
  "smart_card (empty_line\<lparr>smart_card := 2, door_sensor := 9\<rparr>) +
     fingerprint (empty_line\<lparr>smart_card := 2, door_sensor := 9\<rparr>) =
   smart_card (empty_line\<lparr>smart_card := 1, fingerprint := 1, buzzer := 3\<rparr>) +
     fingerprint (empty_line\<lparr>smart_card := 1, fingerprint := 1, buzzer := 3\<rparr>) \<and>
   select_controllers_for_dc (calculate_totals (empty_line\<lparr>smart_card := 2, door_sensor := 9\<rparr>)) =
   select_controllers_for_dc
     (calculate_totals (empty_line\<lparr>smart_card := 1, fingerprint := 1, buzzer := 3\<rparr>))"
proof -
  have h: "smart_card (empty_line\<lparr>smart_card := 2, door_sensor := 9\<rparr>) +
     fingerprint (empty_line\<lparr>smart_card := 2, door_sensor := 9\<rparr>) =
   smart_card (empty_line\<lparr>smart_card := 1, fingerprint := 1, buzzer := 3\<rparr>) +
     fingerprint (empty_line\<lparr>smart_card := 1, fingerprint := 1, buzzer := 3\<rparr>)"
    by (simp add: empty_line_def)
  from h selector_depends_on_readers_only [OF h] show ?thesis by blast
qed

text \<open>
  Claim C4. The demand of a tally: readers are smart cards plus fingerprint readers, inputs
  and outputs are the sums of the spec, and the double-door-lock count enters the inputs
  once and the outputs once (raising it by \<open>n\<close> raises each by \<open>n\<close>). No sign condition
  on the tally is needed.
\<close>

theorem demand_formulas:
  "readers (calculate_totals t) = smart_card t + fingerprint t \<and>
   inputs (calculate_totals t) =
     door_sensor t + rex_button t + push_button t + break_glass t + buzzer t +
     magnetic_lock t + ddl_sensors t + double_door_lock t \<and>
   outputs (calculate_totals t) =
     magnetic_lock t + electric_lock t + ddl_sensors t + double_door_lock t \<and>
   inputs (calculate_totals (t\<lparr>double_door_lock := double_door_lock t + n\<rparr>)) =
     inputs (calculate_totals t) + n \<and>
   outputs (calculate_totals (t\<lparr>double_door_lock := double_door_lock t + n\<rparr>)) =
     outputs (calculate_totals t) + n"
  by (simp add: calculate_totals_def)

section \<open>The Expansion Selector\<close>

lemma try_single_candidate: "try_single i out = try_candidate i out \<circ> single_candidate"
  by (intro ext) (simp add: try_single_def try_candidate_def single_candidate_def covers_def cand_cost_def)

lemma try_pair_candidate: "try_pair i out m1 = try_candidate i out \<circ> pair_candidate m1"
  by (intro ext)
    (simp add: try_pair_def try_candidate_def pair_candidate_def covers_def cand_cost_def Let_def)

lemma module_inv_step:
  assumes "module_inv i out S best"
  shows "module_inv i out (insert c S) (try_candidate i out c best)"
proof (cases "best_cost best")
  case Infinity
  with assms show ?thesis
    by (auto simp: module_inv_def try_candidate_def)
next
  case (Finite k)
  with assms obtain c0 where c0: "c0 \<in> S" "covers i out c0" "best_modules best = fst c0"
    "k = cand_cost c0" "\<forall>u\<in>S. covers i out u \<longrightarrow> k \<le> cand_cost u"
    by (auto simp: module_inv_def)
  show ?thesis
  proof (cases "covers i out c \<and> cand_cost c < k")
    case True
    then have "try_candidate i out c best = \<lparr>best_modules = fst c, best_cost = Finite (cand_cost c)\<rparr>"
      using Finite by (simp add: try_candidate_def)
    moreover have "\<forall>u\<in>insert c S. covers i out u \<longrightarrow> cand_cost c \<le> cand_cost u"
      using True c0(5) by force
    ultimately show ?thesis using True by (auto simp: module_inv_def)
  next
    case False
    then have "try_candidate i out c best = best"
      using Finite by (auto simp: try_candidate_def)
    moreover have "\<forall>u\<in>insert c S. covers i out u \<longrightarrow> k \<le> cand_cost u"
      using False c0(5) by force
    ultimately show ?thesis using Finite c0 by (auto simp: module_inv_def)
  qed
qed

lemma module_inv_fold:
  "module_inv i out S best \<Longrightarrow> module_inv i out (S \<union> set cs) (fold (try_candidate i out) cs best)"
proof (induction cs arbitrary: S best)
  case Nil
  then show ?case by simp
next
  case (Cons c cs)
  from Cons.IH [OF module_inv_step [OF Cons.prems, of c]]
  show ?case by simp
qed

lemma module_inv_singles:
  "module_inv i out S best \<Longrightarrow>
   module_inv i out (S \<union> single_candidate ` set ms) (fold (try_single i out) ms best)"
proof -
  assume a: "module_inv i out S best"
  have "fold (try_single i out) ms best = fold (try_candidate i out) (map single_candidate ms) best"
    by (simp add: fold_map try_single_candidate)
  with module_inv_fold [OF a, of "map single_candidate ms"] show ?thesis by simp
qed

lemma module_inv_pairs_inner:
  "module_inv i out S best \<Longrightarrow>
   module_inv i out (S \<union> pair_candidate m1 ` set ms) (fold (try_pair i out m1) ms best)"
proof -
  assume a: "module_inv i out S best"
  have "fold (try_pair i out m1) ms best = fold (try_candidate i out) (map (pair_candidate m1) ms) best"
    by (simp add: fold_map try_pair_candidate)
  with module_inv_fold [OF a, of "map (pair_candidate m1) ms"] show ?thesis by simp
qed

lemma module_inv_pairs:
  "module_inv i out S best \<Longrightarrow>
   module_inv i out (S \<union> {pair_candidate m1 m2 | m1 m2. m1 \<in> set ms1 \<and> m2 \<in> set ms2})
     (fold (\<lambda>m1. fold (try_pair i out m1) ms2) ms1 best)"
proof (induction ms1 arbitrary: S best)
  case Nil
  then show ?case by simp
next
  case (Cons m ms1)
  have "module_inv i out ((S \<union> pair_candidate m ` set ms2) \<union>
           {pair_candidate m1 m2 | m1 m2. m1 \<in> set ms1 \<and> m2 \<in> set ms2})
          (fold (\<lambda>m1. fold (try_pair i out m1) ms2) ms1 (fold (try_pair i out m) ms2 best))"
    by (rule Cons.IH) (rule module_inv_pairs_inner [OF Cons.prems])
  moreover have "(S \<union> pair_candidate m ` set ms2) \<union>
           {pair_candidate m1 m2 | m1 m2. m1 \<in> set ms1 \<and> m2 \<in> set ms2}
         = S \<union> {pair_candidate m1 m2 | m1 m2. m1 \<in> set (m # ms1) \<and> m2 \<in> set ms2}"
    by auto
  ultimately show ?case by simp
qed

lemma search_modules_inv:
  "module_inv i out (single_candidates \<union> pair_candidates) (search_modules i out)"
proof -
  have "module_inv i out {} \<lparr>best_modules = [], best_cost = Infinity\<rparr>"
    by (simp add: module_inv_def)
  from module_inv_pairs [OF module_inv_singles [OF this]]
  show ?thesis
    unfolding search_modules_def single_candidates_def pair_candidates_def by simp
qed

lemma module_cost: "m \<in> set expansion_modules \<Longrightarrow> mod_cost m = 447 \<or> mod_cost m = 470"
  by (auto simp: expansion_modules_def)

lemma single_cost: "c \<in> single_candidates \<Longrightarrow> cand_cost c \<le> 470 \<and> 0 \<le> cand_cost c"
  by (auto simp: single_candidates_def single_candidate_def cand_cost_def dest: module_cost)

lemma pair_cost: "c \<in> pair_candidates \<Longrightarrow> 894 \<le> cand_cost c \<and> cand_cost c \<le> 940"
proof -
  assume "c \<in> pair_candidates"
  then obtain m1 m2 where "m1 \<in> set expansion_modules" "m2 \<in> set expansion_modules"
    "c = pair_candidate m1 m2" by (auto simp: pair_candidates_def)
  with module_cost [of m1] module_cost [of m2] show ?thesis
    by (auto simp: pair_candidate_def cand_cost_def)
qed


lemma search_modules_found:
  assumes "c0 \<in> single_candidates \<union> pair_candidates" "covers i out c0"
  obtains c where "c \<in> single_candidates \<union> pair_candidates" "covers i out c"
    "search_modules i out = \<lparr>best_modules = fst c, best_cost = Finite (cand_cost c)\<rparr>"
    "\<forall>u\<in>single_candidates \<union> pair_candidates. covers i out u \<longrightarrow> cand_cost c \<le> cand_cost u"
proof (cases "best_cost (search_modules i out)")
  case Infinity
  with search_modules_inv [of i out] assms show ?thesis by (auto simp: module_inv_def)
next
  case (Finite k)
  with search_modules_inv [of i out] obtain c where
    c: "c \<in> single_candidates \<union> pair_candidates" "covers i out c"
    "best_modules (search_modules i out) = fst c" "k = cand_cost c"
    "\<forall>u\<in>single_candidates \<union> pair_candidates. covers i out u \<longrightarrow> k \<le> cand_cost u"
    by (auto simp: module_inv_def)
  have "search_modules i out = \<lparr>best_modules = fst c, best_cost = Finite (cand_cost c)\<rparr>"
    using c(3,4) Finite by (cases "search_modules i out") simp
  with c that show ?thesis by blast
qed

lemma search_modules_none:
  assumes "\<forall>c\<in>single_candidates \<union> pair_candidates. \<not> covers i out c"
  shows "best_cost (search_modules i out) = Infinity"
proof (cases "best_cost (search_modules i out)")
  case Infinity
  then show ?thesis .
next
  case (Finite k)
  with search_modules_inv [of i out] assms show ?thesis by (auto simp: module_inv_def)
qed

lemma covers_single_candidate:
  "covers i out (single_candidate m) \<longleftrightarrow> mod_inputs m \<ge> i \<and> mod_outputs m \<ge> out"
  by (simp add: covers_def single_candidate_def)

lemma covers_pair_candidate:
  "covers i out (pair_candidate m1 m2) \<longleftrightarrow>
     mod_inputs m1 + mod_inputs m2 \<ge> i \<and> mod_outputs m1 + mod_outputs m2 \<ge> out"
  by (simp add: covers_def pair_candidate_def)

lemma calculate_expansion_zero:
  "max 0 (di - ci) = 0 \<Longrightarrow> max 0 (dout - cout) = 0 \<Longrightarrow>
   calculate_expansion_for_dc di dout ci cout = Inr \<lparr>modules = [], expansion_cost = 0\<rparr>"
  by (simp add: calculate_expansion_for_dc_def)

lemma calculate_expansion_found:
  assumes "\<not> (max 0 (di - ci) = 0 \<and> max 0 (dout - cout) = 0)"
    and "search_modules (max 0 (di - ci)) (max 0 (dout - cout)) = \<lparr>best_modules = ns, best_cost = Finite k\<rparr>"
  shows "calculate_expansion_for_dc di dout ci cout = Inr \<lparr>modules = ns, expansion_cost = k\<rparr>"
  using assms by (auto simp: calculate_expansion_for_dc_def Let_def)

lemma calculate_expansion_fallback:
  assumes "\<not> (max 0 (di - ci) = 0 \<and> max 0 (dout - cout) = 0)"
    and "best_cost (search_modules (max 0 (di - ci)) (max 0 (dout - cout))) = Infinity"
  shows "calculate_expansion_for_dc di dout ci cout =
           specialized_modules (max 0 (di - ci)) (max 0 (dout - cout))"
  using assms by (auto simp: calculate_expansion_for_dc_def Let_def)

text \<open>
  Claim C5. With \<open>i\<close> and \<open>out\<close> the two shortages: if both are zero the result is the
  empty module list at cost 0; otherwise, if a single catalog module covers both shortages,
  the result is exactly one such module, of minimum cost among the single modules that
  cover (never a pair); otherwise, if a pair of catalog modules (repeats allowed) covers
  both shortages, the result is such a pair of minimum cost among the covering pairs.
\<close>

theorem expansion_selector_tiers:
  assumes i: "i = max 0 (dc_inputs - controller_inputs)"
    and out: "out = max 0 (dc_outputs - controller_outputs)"
  shows
    "(i = 0 \<and> out = 0 \<longrightarrow>
        calculate_expansion_for_dc dc_inputs dc_outputs controller_inputs controller_outputs =
          Inr \<lparr>modules = [], expansion_cost = 0\<rparr>) \<and>
     (\<not> (i = 0 \<and> out = 0) \<and>
      (\<exists>m\<in>set expansion_modules. mod_inputs m \<ge> i \<and> mod_outputs m \<ge> out) \<longrightarrow>
        (\<exists>m\<in>set expansion_modules. mod_inputs m \<ge> i \<and> mod_outputs m \<ge> out \<and>
           calculate_expansion_for_dc dc_inputs dc_outputs controller_inputs controller_outputs =
             Inr \<lparr>modules = [mod_name m], expansion_cost = mod_cost m\<rparr> \<and>
           (\<forall>m'\<in>set expansion_modules. mod_inputs m' \<ge> i \<and> mod_outputs m' \<ge> out \<longrightarrow>
              mod_cost m \<le> mod_cost m'))) \<and>
     (\<not> (i = 0 \<and> out = 0) \<and>
      \<not> (\<exists>m\<in>set expansion_modules. mod_inputs m \<ge> i \<and> mod_outputs m \<ge> out) \<and>
      (\<exists>m1\<in>set expansion_modules. \<exists>m2\<in>set expansion_modules.
         mod_inputs m1 + mod_inputs m2 \<ge> i \<and> mod_outputs m1 + mod_outputs m2 \<ge> out) \<longrightarrow>
        (\<exists>m1\<in>set expansion_modules. \<exists>m2\<in>set expansion_modules.
           mod_inputs m1 + mod_inputs m2 \<ge> i \<and> mod_outputs m1 + mod_outputs m2 \<ge> out \<and>
           calculate_expansion_for_dc dc_inputs dc_outputs controller_inputs controller_outputs =
             Inr \<lparr>modules = [mod_name m1, mod_name m2], expansion_cost = mod_cost m1 + mod_cost m2\<rparr> \<and>
           (\<forall>m1'\<in>set expansion_modules. \<forall>m2'\<in>set expansion_modules.
              mod_inputs m1' + mod_inputs m2' \<ge> i \<and> mod_outputs m1' + mod_outputs m2' \<ge> out \<longrightarrow>
              mod_cost m1 + mod_cost m2 \<le> mod_cost m1' + mod_cost m2')))"
proof (intro conjI impI)
  assume "i = 0 \<and> out = 0"
  then show "calculate_expansion_for_dc dc_inputs dc_outputs controller_inputs controller_outputs =
          Inr \<lparr>modules = [], expansion_cost = 0\<rparr>"
    using i out by (simp add: calculate_expansion_zero)
next
  assume a: "\<not> (i = 0 \<and> out = 0) \<and>
      (\<exists>m\<in>set expansion_modules. mod_inputs m \<ge> i \<and> mod_outputs m \<ge> out)"
  then obtain m0 where m0: "m0 \<in> set expansion_modules" "mod_inputs m0 \<ge> i" "mod_outputs m0 \<ge> out"
    by blast
  then have c0: "single_candidate m0 \<in> single_candidates \<union> pair_candidates"
    "covers i out (single_candidate m0)"
    by (simp_all add: single_candidates_def covers_single_candidate)
  from search_modules_found [OF c0] obtain c where
    c: "c \<in> single_candidates \<union> pair_candidates" "covers i out c"
    "search_modules i out = \<lparr>best_modules = fst c, best_cost = Finite (cand_cost c)\<rparr>"
    "\<forall>u\<in>single_candidates \<union> pair_candidates. covers i out u \<longrightarrow> cand_cost c \<le> cand_cost u"
    by blast
  from c(4) c0 have "cand_cost c \<le> cand_cost (single_candidate m0)" by blast
  with single_cost [of "single_candidate m0"] c0(1) m0(1)
  have "cand_cost c \<le> 470" by (simp add: single_candidates_def)
  with pair_cost [of c] c(1) have "c \<in> single_candidates" by auto
  then obtain m where m: "m \<in> set expansion_modules" "c = single_candidate m"
    by (auto simp: single_candidates_def)
  have res: "calculate_expansion_for_dc dc_inputs dc_outputs controller_inputs controller_outputs =
             Inr \<lparr>modules = [mod_name m], expansion_cost = mod_cost m\<rparr>"
    using calculate_expansion_found [of dc_inputs controller_inputs dc_outputs controller_outputs
        "fst c" "cand_cost c"] a c(3) i out m(2)
    by (simp add: single_candidate_def cand_cost_def)
  have opt: "\<forall>m'\<in>set expansion_modules. mod_inputs m' \<ge> i \<and> mod_outputs m' \<ge> out \<longrightarrow>
              mod_cost m \<le> mod_cost m'"
  proof (intro ballI impI)
    fix m' assume m': "m' \<in> set expansion_modules" "mod_inputs m' \<ge> i \<and> mod_outputs m' \<ge> out"
    then have "single_candidate m' \<in> single_candidates \<union> pair_candidates"
      "covers i out (single_candidate m')"
      by (simp_all add: single_candidates_def covers_single_candidate)
    with c(4) have "cand_cost c \<le> cand_cost (single_candidate m')" by blast
    then show "mod_cost m \<le> mod_cost m'"
      using m(2) by (simp add: single_candidate_def cand_cost_def)
  qed
  from c(2) m(2) have "mod_inputs m \<ge> i \<and> mod_outputs m \<ge> out"
    by (simp add: covers_single_candidate)
  with m(1) res opt
  show "\<exists>m\<in>set expansion_modules. mod_inputs m \<ge> i \<and> mod_outputs m \<ge> out \<and>
           calculate_expansion_for_dc dc_inputs dc_outputs controller_inputs controller_outputs =
             Inr \<lparr>modules = [mod_name m], expansion_cost = mod_cost m\<rparr> \<and>
           (\<forall>m'\<in>set expansion_modules. mod_inputs m' \<ge> i \<and> mod_outputs m' \<ge> out \<longrightarrow>
              mod_cost m \<le> mod_cost m')"
    by blast
next
  assume a: "\<not> (i = 0 \<and> out = 0) \<and>
      \<not> (\<exists>m\<in>set expansion_modules. mod_inputs m \<ge> i \<and> mod_outputs m \<ge> out) \<and>
      (\<exists>m1\<in>set expansion_modules. \<exists>m2\<in>set expansion_modules.
         mod_inputs m1 + mod_inputs m2 \<ge> i \<and> mod_outputs m1 + mod_outputs m2 \<ge> out)"
  then obtain p1 p2 where p: "p1 \<in> set expansion_modules" "p2 \<in> set expansion_modules"
    "mod_inputs p1 + mod_inputs p2 \<ge> i \<and> mod_outputs p1 + mod_outputs p2 \<ge> out"
    by blast
  then have c0: "pair_candidate p1 p2 \<in> single_candidates \<union> pair_candidates"
    "covers i out (pair_candidate p1 p2)"
    by (auto simp: pair_candidates_def covers_pair_candidate)
  from search_modules_found [OF c0] obtain c where
    c: "c \<in> single_candidates \<union> pair_candidates" "covers i out c"
    "search_modules i out = \<lparr>best_modules = fst c, best_cost = Finite (cand_cost c)\<rparr>"
    "\<forall>u\<in>single_candidates \<union> pair_candidates. covers i out u \<longrightarrow> cand_cost c \<le> cand_cost u"
    by blast
  have "c \<notin> single_candidates"
  proof
    assume "c \<in> single_candidates"
    then obtain m where "m \<in> set expansion_modules" "c = single_candidate m"
      by (auto simp: single_candidates_def)
    with c(2) a show False by (auto simp: covers_single_candidate)
  qed
  with c(1) obtain m1 m2 where m: "m1 \<in> set expansion_modules" "m2 \<in> set expansion_modules"
    "c = pair_candidate m1 m2"
    by (auto simp: pair_candidates_def)
  have res: "calculate_expansion_for_dc dc_inputs dc_outputs controller_inputs controller_outputs =
             Inr \<lparr>modules = [mod_name m1, mod_name m2], expansion_cost = mod_cost m1 + mod_cost m2\<rparr>"
    using calculate_expansion_found [of dc_inputs controller_inputs dc_outputs controller_outputs
        "fst c" "cand_cost c"] a c(3) i out m(3)
    by (simp add: pair_candidate_def cand_cost_def)
  have opt: "\<forall>m1'\<in>set expansion_modules. \<forall>m2'\<in>set expansion_modules.
              mod_inputs m1' + mod_inputs m2' \<ge> i \<and> mod_outputs m1' + mod_outputs m2' \<ge> out \<longrightarrow>
              mod_cost m1 + mod_cost m2 \<le> mod_cost m1' + mod_cost m2'"
  proof (intro ballI impI)
    fix m1' m2' assume m': "m1' \<in> set expansion_modules" "m2' \<in> set expansion_modules"
      "mod_inputs m1' + mod_inputs m2' \<ge> i \<and> mod_outputs m1' + mod_outputs m2' \<ge> out"
    then have "pair_candidate m1' m2' \<in> single_candidates \<union> pair_candidates"
      "covers i out (pair_candidate m1' m2')"
      by (auto simp: pair_candidates_def covers_pair_candidate)
    with c(4) have "cand_cost c \<le> cand_cost (pair_candidate m1' m2')" by blast
    then show "mod_cost m1 + mod_cost m2 \<le> mod_cost m1' + mod_cost m2'"
      using m(3) by (simp add: pair_candidate_def cand_cost_def)
  qed
  from c(2) m(3) have "mod_inputs m1 + mod_inputs m2 \<ge> i \<and> mod_outputs m1 + mod_outputs m2 \<ge> out"
    by (simp add: covers_pair_candidate)
  with m(1,2) res opt
  show "\<exists>m1\<in>set expansion_modules. \<exists>m2\<in>set expansion_modules.
           mod_inputs m1 + mod_inputs m2 \<ge> i \<and> mod_outputs m1 + mod_outputs m2 \<ge> out \<and>
           calculate_expansion_for_dc dc_inputs dc_outputs controller_inputs controller_outputs =
             Inr \<lparr>modules = [mod_name m1, mod_name m2], expansion_cost = mod_cost m1 + mod_cost m2\<rparr> \<and>
           (\<forall>m1'\<in>set expansion_modules. \<forall>m2'\<in>set expansion_modules.
              mod_inputs m1' + mod_inputs m2' \<ge> i \<and> mod_outputs m1' + mod_outputs m2' \<ge> out \<longrightarrow>
              mod_cost m1 + mod_cost m2 \<le> mod_cost m1' + mod_cost m2')"
    by blast
qed

text \<open>
  The theorem in each tier: no shortage; a shortage of 4 inputs; a shortage of 20 inputs
  and 10 outputs, which no single module covers.
\<close>

theorem expansion_selector_tiers_witness:
  "calculate_expansion_for_dc 4 2 8 2 = Inr \<lparr>modules = [], expansion_cost = 0\<rparr> \<and>
   (\<exists>m\<in>set expansion_modules. 4 \<le> mod_inputs m \<and> 0 \<le> mod_outputs m \<and>
      calculate_expansion_for_dc 16 0 12 4 =
        Inr \<lparr>modules = [mod_name m], expansion_cost = mod_cost m\<rparr>) \<and>
   (\<exists>m1\<in>set expansion_modules. \<exists>m2\<in>set expansion_modules.
      calculate_expansion_for_dc 20 10 0 0 =
        Inr \<lparr>modules = [mod_name m1, mod_name m2], expansion_cost = mod_cost m1 + mod_cost m2\<rparr>)"
proof (intro conjI)
  have i: "(0::int) = max 0 (4 - 8)" and out: "(0::int) = max 0 (2 - 2)" by simp_all
  from expansion_selector_tiers [OF i out]
  show "calculate_expansion_for_dc 4 2 8 2 = Inr \<lparr>modules = [], expansion_cost = 0\<rparr>"
    by blast
next
  have i: "(4::int) = max 0 (16 - 12)" and out: "(0::int) = max 0 (0 - 4)" by simp_all
  have nz: "\<not> ((4::int) = 0 \<and> (0::int) = 0)" by simp
  have ex: "\<exists>m\<in>set expansion_modules. (4::int) \<le> mod_inputs m \<and> (0::int) \<le> mod_outputs m"
    by (simp add: expansion_modules_def)
  from expansion_selector_tiers [OF i out] nz ex
  show "\<exists>m\<in>set expansion_modules. 4 \<le> mod_inputs m \<and> 0 \<le> mod_outputs m \<and>
      calculate_expansion_for_dc 16 0 12 4 =
        Inr \<lparr>modules = [mod_name m], expansion_cost = mod_cost m\<rparr>"
    by blast
next
  have i: "(20::int) = max 0 (20 - 0)" and out: "(10::int) = max 0 (10 - 0)" by simp_all
  have nz: "\<not> ((20::int) = 0 \<and> (10::int) = 0)" by simp
  have no: "\<not> (\<exists>m\<in>set expansion_modules. (20::int) \<le> mod_inputs m \<and> (10::int) \<le> mod_outputs m)"
    by (simp add: expansion_modules_def)
  have yes: "\<exists>m1\<in>set expansion_modules. \<exists>m2\<in>set expansion_modules.
      (20::int) \<le> mod_inputs m1 + mod_inputs m2 \<and> (10::int) \<le> mod_outputs m1 + mod_outputs m2"
    by (simp add: expansion_modules_def)
  from expansion_selector_tiers [OF i out] nz no yes
  show "\<exists>m1\<in>set expansion_modules. \<exists>m2\<in>set expansion_modules.
      calculate_expansion_for_dc 20 10 0 0 =
        Inr \<lparr>modules = [mod_name m1, mod_name m2], expansion_cost = mod_cost m1 + mod_cost m2\<rparr>"
    by blast
qed

section \<open>The float division and the fallback of the Expansion Selector\<close>

lemma float_exponent_small: "s < 2 ^ 53 \<Longrightarrow> float_exponent s = 0"
  by (simp add: float_exponent.simps)

lemma float_exponent_quotient_upper: "s div 2 ^ float_exponent s < 2 ^ 53"
proof (induction s rule: float_exponent.induct)
  case (1 s)
  show ?case
  proof (cases "s < 2 ^ 53")
    case True
    then show ?thesis by (simp add: float_exponent_small)
  next
    case False
    have "s div 2 ^ Suc (float_exponent (s div 2)) = (s div 2) div 2 ^ float_exponent (s div 2)"
      by (simp add: zdiv_zmult2_eq)
    with 1 False show ?thesis by (subst float_exponent.simps) simp
  qed
qed

lemma float_exponent_quotient_lower:
  "0 < float_exponent s \<Longrightarrow> 2 ^ 52 \<le> s div 2 ^ float_exponent s"
proof (induction s rule: float_exponent.induct)
  case (1 s)
  show ?case
  proof (cases "s < 2 ^ 53")
    case True
    with "1.prems" show ?thesis by (simp add: float_exponent_small)
  next
    case False
    have eq: "s div 2 ^ Suc (float_exponent (s div 2)) = (s div 2) div 2 ^ float_exponent (s div 2)"
      by (simp add: zdiv_zmult2_eq)
    have fe: "float_exponent s = Suc (float_exponent (s div 2))"
      using False by (subst float_exponent.simps) simp
    show ?thesis
    proof (cases "0 < float_exponent (s div 2)")
      case True
      with "1.IH" False have "2 ^ 52 \<le> (s div 2) div 2 ^ float_exponent (s div 2)" by simp
      with eq fe show ?thesis by simp
    next
      case False
      then have "float_exponent (s div 2) = 0" by simp
      moreover have "2 ^ 52 \<le> s div 2" using \<open>\<not> s < 2 ^ 53\<close> by simp
      ultimately show ?thesis using fe by simp
    qed
  qed
qed

lemma float_exponent_mono: "s \<le> s' \<Longrightarrow> float_exponent s \<le> float_exponent s'"
proof (induction s' arbitrary: s rule: float_exponent.induct)
  case (1 s')
  show ?case
  proof (cases "s < 2 ^ 53")
    case True
    then show ?thesis by (simp add: float_exponent_small)
  next
    case False
    with "1.prems" have big: "\<not> s' < 2 ^ 53" by simp
    have "s div 2 \<le> s' div 2" using "1.prems" by (simp add: zdiv_mono1)
    with "1.IH" big have "float_exponent (s div 2) \<le> float_exponent (s' div 2)" by simp
    moreover have "float_exponent s = Suc (float_exponent (s div 2))"
      using False by (subst float_exponent.simps) simp
    moreover have "float_exponent s' = Suc (float_exponent (s' div 2))"
      using big by (subst float_exponent.simps) simp
    ultimately show ?thesis by simp
  qed
qed

lemma round_to_double_small: "s < 2 ^ 53 \<Longrightarrow> round_to_double s = s"
  by (simp add: round_to_double_def float_exponent_small)

lemma round_to_double_bounds:
  "s div 2 ^ float_exponent s * 2 ^ float_exponent s \<le> round_to_double s \<and>
   round_to_double s \<le> (s div 2 ^ float_exponent s + 1) * 2 ^ float_exponent s"
  by (simp add: round_to_double_def Let_def mult_right_mono)

lemma round_to_double_nonneg: "0 \<le> s \<Longrightarrow> 0 \<le> round_to_double s"
proof -
  assume "0 \<le> s"
  then have "0 \<le> s div 2 ^ float_exponent s * 2 ^ float_exponent s"
    by (simp add: pos_imp_zdiv_nonneg_iff)
  with round_to_double_bounds [of s] show ?thesis by linarith
qed

lemma round_to_double_mono:
  assumes "s \<le> s'"
  shows "round_to_double s \<le> round_to_double s'"
proof -
  define e where "e = float_exponent s"
  define e' where "e' = float_exponent s'"
  define q where "q = s div 2 ^ e"
  define q' where "q' = s' div 2 ^ e'"
  have ee': "e \<le> e'" using assms float_exponent_mono unfolding e_def e'_def by blast
  have b: "q * 2 ^ e \<le> round_to_double s" "round_to_double s \<le> (q + 1) * 2 ^ e"
    using round_to_double_bounds [of s] unfolding q_def e_def by simp_all
  have b': "q' * 2 ^ e' \<le> round_to_double s'" "round_to_double s' \<le> (q' + 1) * 2 ^ e'"
    using round_to_double_bounds [of s'] unfolding q'_def e'_def by simp_all
  show ?thesis
  proof (cases "e = e'")
    case True
    have qq': "q \<le> q'" using assms True unfolding q_def q'_def by (simp add: zdiv_mono1)
    show ?thesis
    proof (cases "q = q'")
      case False
      with qq' have "q + 1 \<le> q'" by simp
      then have m: "(q + 1) * 2 ^ e \<le> q' * 2 ^ e" by (simp add: mult_right_mono)
      have "q' * 2 ^ e \<le> round_to_double s'" using b'(1) True by simp
      with b(2) m show ?thesis by linarith
    next
      case same: True
      have "s = q * 2 ^ e + s mod 2 ^ e" unfolding q_def by (rule div_mult_mod_eq [symmetric])
      moreover have "s' = q' * 2 ^ e' + s' mod 2 ^ e'"
        unfolding q'_def by (rule div_mult_mod_eq [symmetric])
      then have "s' = q * 2 ^ e + s' mod 2 ^ e" using same True by simp
      ultimately have r: "s mod 2 ^ e \<le> s' mod 2 ^ e" using assms by linarith
      have rs: "round_to_double s =
          (if 2 * (s mod 2 ^ e) > 2 ^ e \<or> (2 * (s mod 2 ^ e) = 2 ^ e \<and> odd q)
           then (q + 1) * 2 ^ e else q * 2 ^ e)"
        unfolding round_to_double_def Let_def e_def q_def by simp
      have rs': "round_to_double s' =
          (if 2 * (s' mod 2 ^ e) > 2 ^ e \<or> (2 * (s' mod 2 ^ e) = 2 ^ e \<and> odd q)
           then (q + 1) * 2 ^ e else q * 2 ^ e)"
        using same True unfolding round_to_double_def Let_def e'_def q'_def by simp
      have "q * 2 ^ e \<le> (q + 1) * 2 ^ e" by (simp add: mult_right_mono)
      with rs rs' r show ?thesis by (auto split: if_splits)
    qed
  next
    case False
    with ee' have lt: "e < e'" by simp
    then have "0 < float_exponent s'" unfolding e'_def by simp
    then have low: "2 ^ 52 \<le> q'" unfolding q'_def e'_def by (rule float_exponent_quotient_lower)
    have up: "q + 1 \<le> 2 ^ 53"
      using float_exponent_quotient_upper [of s] unfolding q_def e_def by simp
    have "(q + 1) * 2 ^ e \<le> 2 ^ 53 * 2 ^ e" using up by (simp add: mult_right_mono)
    also have "\<dots> = (2::int) ^ (53 + e)" by (simp add: power_add)
    also have "\<dots> \<le> 2 ^ (52 + e')" using lt by (intro power_increasing) simp_all
    also have "\<dots> = 2 ^ 52 * 2 ^ e'" by (simp add: power_add)
    also have "\<dots> \<le> q' * 2 ^ e'" using low by (simp add: mult_right_mono)
    finally show ?thesis using b(2) b'(1) by linarith
  qed
qed

lemma ceil_true_div_small:
  "0 < d \<Longrightarrow> s < 2 ^ 53 \<Longrightarrow> ceil_true_div s d = Inr (- ((- s) div d))"
proof -
  assume d: "0 < d" and s: "s < 2 ^ 53"
  have "(2::int) ^ 53 \<le> 2 ^ 1024" by simp
  also have "\<dots> \<le> 2 ^ 1024 * d" using d by simp
  finally have "s < 2 ^ 1024 * d" using s by linarith
  then show ?thesis using s by (simp add: ceil_true_div_def round_to_double_small)
qed

lemma ceil_true_div_mono:
  assumes "0 < d" "s \<le> s'" "ceil_true_div s' d = Inr n'"
  shows "\<exists>n. ceil_true_div s d = Inr n \<and> n \<le> n'"
proof -
  have le: "round_to_double s \<le> round_to_double s'" using assms(2) by (rule round_to_double_mono)
  from assms(3) have ok: "\<not> round_to_double s' \<ge> 2 ^ 1024 * d" and n': "n' = - ((- round_to_double s') div d)"
    by (auto simp: ceil_true_div_def Let_def split: if_splits)
  have "(- round_to_double s') div d \<le> (- round_to_double s) div d"
    using le assms(1) by (simp add: zdiv_mono1)
  with le ok n' show ?thesis by (simp add: ceil_true_div_def Let_def)
qed

lemma specialized_modules_cost:
  "map_sum id expansion_cost (specialized_modules i out) =
     (case units_needed i 16 of
        Inl e \<Rightarrow> Inl e
      | Inr a \<Rightarrow> (case units_needed out 8 of Inl e \<Rightarrow> Inl e | Inr b \<Rightarrow> Inr (470 * a + 470 * b)))"
  by (simp add: specialized_modules_def add_input_modules_def add_output_modules_def
      units_needed_def split: sum.splits prod.splits)

lemma specialized_modules_Inr:
  "specialized_modules i out = Inr e \<Longrightarrow>
   \<exists>a b. units_needed i 16 = Inr a \<and> units_needed out 8 = Inr b \<and>
         expansion_cost e = 470 * a + 470 * b"
  using specialized_modules_cost [of i out] by (auto split: sum.splits)

lemma specialized_modules_units:
  "units_needed i 16 = Inr a \<Longrightarrow> units_needed out 8 = Inr b \<Longrightarrow>
   \<exists>e. specialized_modules i out = Inr e \<and> expansion_cost e = 470 * a + 470 * b"
  using specialized_modules_cost [of i out]
  by (cases "specialized_modules i out") (auto split: sum.splits)

lemma ceil_true_div_nonneg:
  "0 < d \<Longrightarrow> 0 \<le> s \<Longrightarrow> ceil_true_div s d = Inr n \<Longrightarrow> 0 \<le> n"
proof -
  assume d: "0 < d" and s: "0 \<le> s" and n: "ceil_true_div s d = Inr n"
  have "0 \<le> round_to_double s" using s by (rule round_to_double_nonneg)
  then have "(- round_to_double s) div d \<le> 0 div d"
    using d by (intro zdiv_mono1) simp_all
  then have "(- round_to_double s) div d \<le> 0" by simp
  with n show ?thesis by (auto simp: ceil_true_div_def Let_def split: if_splits)
qed

lemma units_needed_mono:
  assumes "0 < d" "s \<le> s'" "units_needed s' d = Inr n'"
  shows "\<exists>n. units_needed s d = Inr n \<and> n \<le> n'"
proof (cases "0 < s")
  case True
  with assms show ?thesis by (simp add: units_needed_def ceil_true_div_mono)
next
  case False
  have "0 \<le> n'"
  proof (cases "0 < s'")
    case True
    with assms(3) have "ceil_true_div s' d = Inr n'" by (simp add: units_needed_def)
    with ceil_true_div_nonneg [of d s' n'] assms(1) True show ?thesis by simp
  next
    case False
    with assms(3) show ?thesis by (simp add: units_needed_def)
  qed
  with False show ?thesis by (simp add: units_needed_def)
qed

lemma units_needed_lower:
  assumes "0 < d" "0 \<le> s0" "s0 < 2 ^ 53" "s0 \<le> s" "units_needed s d = Inr n"
  shows "(if s0 > 0 then - ((- s0) div d) else 0) \<le> n"
proof -
  from units_needed_mono [OF assms(1,4,5)] obtain n0 where
    n0: "units_needed s0 d = Inr n0" "n0 \<le> n" by blast
  from n0(1) assms(1,3) have "n0 = (if s0 > 0 then - ((- s0) div d) else 0)"
    by (simp add: units_needed_def ceil_true_div_small split: if_splits)
  with n0(2) show ?thesis by simp
qed

lemma covers_mono:
  "i \<le> i' \<Longrightarrow> out \<le> out' \<Longrightarrow> covers i' out' c \<Longrightarrow> covers i out c"
  by (auto simp: covers_def)

lemma candidate_cost_bounds:
  "c \<in> single_candidates \<union> pair_candidates \<Longrightarrow> 0 \<le> cand_cost c \<and> cand_cost c \<le> 940"
  using single_cost [of c] pair_cost [of c] by auto

lemma inputs_pair_covers:
  "i \<le> 32 \<Longrightarrow> out \<le> 0 \<Longrightarrow> \<exists>c\<in>single_candidates \<union> pair_candidates. covers i out c"
proof -
  assume a: "i \<le> 32" "out \<le> 0"
  define m where "m = \<lparr>mod_name = ''inout16 (16/0)'', mod_inputs = 16, mod_outputs = 0, mod_cost = 447\<rparr>"
  have "m \<in> set expansion_modules" by (simp add: m_def expansion_modules_def)
  then have "pair_candidate m m \<in> single_candidates \<union> pair_candidates"
    by (auto simp: pair_candidates_def)
  moreover have "covers i out (pair_candidate m m)"
    using a by (simp add: covers_pair_candidate m_def)
  ultimately show ?thesis by blast
qed

lemma outputs_pair_covers:
  "i \<le> 0 \<Longrightarrow> out \<le> 32 \<Longrightarrow> \<exists>c\<in>single_candidates \<union> pair_candidates. covers i out c"
proof -
  assume a: "i \<le> 0" "out \<le> 32"
  define m where "m = \<lparr>mod_name = ''inout16 (0/16)'', mod_inputs = 0, mod_outputs = 16, mod_cost = 447\<rparr>"
  have "m \<in> set expansion_modules" by (simp add: m_def expansion_modules_def)
  then have "pair_candidate m m \<in> single_candidates \<union> pair_candidates"
    by (auto simp: pair_candidates_def)
  moreover have "covers i out (pair_candidate m m)"
    using a by (simp add: covers_pair_candidate m_def)
  ultimately show ?thesis by blast
qed

text \<open>The three ways the Expansion Selector ends, for shortages that are not both zero.\<close>

lemma expansion_cases:
  assumes "0 \<le> i" "0 \<le> out" "\<not> (i = 0 \<and> out = 0)"
  obtains (found) c where "c \<in> single_candidates \<union> pair_candidates" "covers i out c"
      "calculate_expansion_for_dc i out 0 0 = Inr \<lparr>modules = fst c, expansion_cost = cand_cost c\<rparr>"
      "\<forall>u\<in>single_candidates \<union> pair_candidates. covers i out u \<longrightarrow> cand_cost c \<le> cand_cost u"
    | (fallback) "\<forall>c\<in>single_candidates \<union> pair_candidates. \<not> covers i out c"
      "calculate_expansion_for_dc i out 0 0 = specialized_modules i out"
proof (cases "\<exists>c\<in>single_candidates \<union> pair_candidates. covers i out c")
  case True
  then obtain c0 where "c0 \<in> single_candidates \<union> pair_candidates" "covers i out c0" by blast
  from search_modules_found [OF this] obtain c where
    c: "c \<in> single_candidates \<union> pair_candidates" "covers i out c"
    "search_modules i out = \<lparr>best_modules = fst c, best_cost = Finite (cand_cost c)\<rparr>"
    "\<forall>u\<in>single_candidates \<union> pair_candidates. covers i out u \<longrightarrow> cand_cost c \<le> cand_cost u"
    by blast
  have "calculate_expansion_for_dc i out 0 0 = Inr \<lparr>modules = fst c, expansion_cost = cand_cost c\<rparr>"
    using calculate_expansion_found [of i 0 out 0 "fst c" "cand_cost c"] assms c(3)
    by (simp add: max_def)
  with c found show ?thesis by blast
next
  case False
  then have no: "\<forall>c\<in>single_candidates \<union> pair_candidates. \<not> covers i out c" by blast
  then have "best_cost (search_modules i out) = Infinity" by (rule search_modules_none)
  then have "calculate_expansion_for_dc i out 0 0 = specialized_modules i out"
    using calculate_expansion_fallback [of i 0 out 0] assms by (simp add: max_def)
  with no fallback show ?thesis by blast
qed

lemma expansion_cost_nonneg:
  assumes "0 \<le> i" "0 \<le> out" "calculate_expansion_for_dc i out 0 0 = Inr e"
  shows "0 \<le> expansion_cost e"
proof (cases "i = 0 \<and> out = 0")
  case True
  with assms(3) show ?thesis by (auto simp: calculate_expansion_for_dc_def)
next
  case False
  from assms(1,2) False show ?thesis
  proof (cases rule: expansion_cases)
    case (found c)
    with assms(3) candidate_cost_bounds [of c] show ?thesis by auto
  next
    case fallback
    with assms(3) have "specialized_modules i out = Inr e" by simp
    from specialized_modules_Inr [OF this] obtain a b where
      ab: "units_needed i 16 = Inr a" "units_needed out 8 = Inr b"
      "expansion_cost e = 470 * a + 470 * b" by blast
    from units_needed_lower [of 16 0 i a] ab(1) assms(1) have "0 \<le> a" by simp
    moreover from units_needed_lower [of 8 0 out b] ab(2) assms(2) have "0 \<le> b" by simp
    ultimately show ?thesis using ab(3) by simp
  qed
qed

lemma fallback_cost_lower:
  assumes "0 \<le> i" "0 \<le> out" "\<not> (i = 0 \<and> out = 0)"
    and no: "\<forall>c\<in>single_candidates \<union> pair_candidates. \<not> covers i out c"
    and sp: "specialized_modules i out = Inr e"
  shows "940 \<le> expansion_cost e"
proof -
  from specialized_modules_Inr [OF sp] obtain a b where
    ab: "units_needed i 16 = Inr a" "units_needed out 8 = Inr b"
    "expansion_cost e = 470 * a + 470 * b" by blast
  have a0: "0 \<le> a" using units_needed_lower [of 16 0 i a] ab(1) assms(1) by simp
  have b0: "0 \<le> b" using units_needed_lower [of 8 0 out b] ab(2) assms(2) by simp
  consider (both) "0 < i" "0 < out" | (inputs) "out = 0" "0 < i" | (outputs) "i = 0" "0 < out"
    using assms(1-3) by linarith
  then show ?thesis
  proof cases
    case both
    from units_needed_lower [of 16 1 i a] ab(1) both(1) have "1 \<le> a" by simp
    moreover from units_needed_lower [of 8 1 out b] ab(2) both(2) have "1 \<le> b" by simp
    ultimately show ?thesis using ab(3) by simp
  next
    case inputs
    with no inputs_pair_covers [of i out] have "33 \<le> i" by force
    with units_needed_lower [of 16 33 i a] ab(1) have "3 \<le> a" by simp
    with b0 ab(3) show ?thesis by simp
  next
    case outputs
    with no outputs_pair_covers [of i out] have "33 \<le> out" by force
    with units_needed_lower [of 8 33 out b] ab(2) have "5 \<le> b" by simp
    with a0 ab(3) show ?thesis by simp
  qed
qed

lemma expansion_mono:
  assumes "0 \<le> i" "i \<le> i'" "0 \<le> out" "out \<le> out'"
    and e': "calculate_expansion_for_dc i' out' 0 0 = Inr e'"
  shows "\<exists>e. calculate_expansion_for_dc i out 0 0 = Inr e \<and> expansion_cost e \<le> expansion_cost e'"
proof (cases "i = 0 \<and> out = 0")
  case True
  have "0 \<le> expansion_cost e'"
    using expansion_cost_nonneg [of i' out' e'] assms by simp
  with True show ?thesis by (simp add: calculate_expansion_for_dc_def)
next
  case False
  with assms(1-4) have nz': "\<not> (i' = 0 \<and> out' = 0)" and pos': "0 \<le> i'" "0 \<le> out'"
    by linarith+
  from pos' nz' show ?thesis
  proof (cases rule: expansion_cases)
    case (found c')
    then have "covers i out c'" using assms(2,4) covers_mono by blast
    from assms(1,3) False show ?thesis
    proof (cases rule: expansion_cases)
      case (found c)
      with \<open>covers i out c'\<close> \<open>c' \<in> single_candidates \<union> pair_candidates\<close>
      have "cand_cost c \<le> cand_cost c'" by blast
      with found(3) \<open>calculate_expansion_for_dc i' out' 0 0 =
          Inr \<lparr>modules = fst c', expansion_cost = cand_cost c'\<rparr>\<close> e'
      show ?thesis by auto
    next
      case fallback
      with \<open>covers i out c'\<close> \<open>c' \<in> single_candidates \<union> pair_candidates\<close>
      show ?thesis by blast
    qed
  next
    case fallback
    with e' have sp': "specialized_modules i' out' = Inr e'" by simp
    from assms(1,3) False show ?thesis
    proof (cases rule: expansion_cases)
      case (found c)
      have "940 \<le> expansion_cost e'"
        using fallback_cost_lower [OF pos' nz' fallback(1) sp'] .
      with found(1,3) candidate_cost_bounds [of c] show ?thesis by auto
    next
      case fallback
      from specialized_modules_Inr [OF sp'] obtain a' b' where
        ab': "units_needed i' 16 = Inr a'" "units_needed out' 8 = Inr b'"
        "expansion_cost e' = 470 * a' + 470 * b'" by blast
      from units_needed_mono [of 16 i i' a'] ab'(1) assms(2) obtain a where
        a: "units_needed i 16 = Inr a" "a \<le> a'" by auto
      from units_needed_mono [of 8 out out' b'] ab'(2) assms(4) obtain b where
        b: "units_needed out 8 = Inr b" "b \<le> b'" by auto
      from specialized_modules_units [OF a(1) b(1)] obtain e where
        "specialized_modules i out = Inr e" "expansion_cost e = 470 * a + 470 * b" by blast
      with fallback(2) ab'(3) a(2) b(2) show ?thesis by simp
    qed
  qed
qed

lemma expansion_depends_on_shortage:
  "calculate_expansion_for_dc di dout ci cout =
   calculate_expansion_for_dc (max 0 (di - ci)) (max 0 (dout - cout)) 0 0"
  by (simp add: calculate_expansion_for_dc_def)

section \<open>The fallback at large shortages\<close>

lemma float_exponent_at_2_53_plus_1: "float_exponent 9007199254740993 = 1"
  by (simp add: float_exponent.simps)

lemma round_to_double_at_2_53_plus_1: "round_to_double 9007199254740993 = 9007199254740992"
  by (simp add: round_to_double_def float_exponent_at_2_53_plus_1 Let_def)

lemma ceil_true_div_at_2_53_plus_1: "ceil_true_div 9007199254740993 16 = Inr 562949953421312"
  by (simp add: ceil_true_div_def round_to_double_at_2_53_plus_1 Let_def)

lemma str_int_2_49: "str_int 562949953421312 = ''562949953421312''"
  by (simp add: str_int_def str_nat.simps)

lemma specialized_modules_at_2_53_plus_1: "specialized_modules 9007199254740993 0 =
    Inr \<lparr>modules = [''in16 (x562949953421312)''], expansion_cost = 264586478108016640\<rparr>"
  by (simp add: specialized_modules_def add_input_modules_def add_output_modules_def
      ceil_true_div_at_2_53_plus_1 str_int_2_49)

lemma candidate_inputs:
  assumes "c \<in> single_candidates \<union> pair_candidates" "covers i out c"
  shows "i \<le> 32"
proof -
  have m: "mod_inputs m \<le> 16" if "m \<in> set expansion_modules" for m
    using that by (auto simp: expansion_modules_def)
  from assms(1) consider (single) m0 where "m0 \<in> set expansion_modules" "c = single_candidate m0"
    | (pair) m1 m2 where "m1 \<in> set expansion_modules" "m2 \<in> set expansion_modules"
        "c = pair_candidate m1 m2"
    by (auto simp: single_candidates_def pair_candidates_def)
  then show ?thesis
  proof cases
    case single
    with assms(2) m [of m0] show ?thesis by (simp add: covers_single_candidate)
  next
    case pair
    with assms(2) m [of m1] m [of m2] show ?thesis by (simp add: covers_pair_candidate)
  qed
qed

text \<open>
  Claim C6 at an input shortage of \<open>2 ^ 53 + 1\<close> and no output shortage, where no two
  modules cover: the float quotient rounds to \<open>2 ^ 49\<close>, so the code buys
  562949953421312 units of in16 at 470 each, one unit fewer than the ceiling
  562949953421313 of the claim, and these units provide fewer inputs than the shortage.
\<close>

theorem fallback_float_rounding:
  "calculate_expansion_for_dc 9007199254740993 0 0 0 =
     Inr \<lparr>modules = [''in16 (x562949953421312)''], expansion_cost = 470 * 562949953421312\<rparr> \<and>
   (9007199254740993::int) = 2 ^ 53 + 1 \<and>
   - ((- 9007199254740993) div 16) = (562949953421313::int) \<and>
   (16::int) * 562949953421312 < 9007199254740993"
proof -
  have "best_cost (search_modules 9007199254740993 0) = Infinity"
  proof (rule search_modules_none, intro ballI notI)
    fix c assume "c \<in> single_candidates \<union> pair_candidates" "covers 9007199254740993 0 c"
    from candidate_inputs [OF this] show False by simp
  qed
  then have "calculate_expansion_for_dc 9007199254740993 0 0 0 =
        specialized_modules 9007199254740993 0"
    using calculate_expansion_fallback [of 9007199254740993 0 0 0] by simp
  then show ?thesis by (simp add: specialized_modules_at_2_53_plus_1)
qed

text \<open>
  Below \<open>2 ^ 53\<close> the float quotient is exact: when no single module and no pair covers
  the shortages, the fallback succeeds and costs 470 per in16 unit and 470 per r8 unit,
  the unit counts being the integer ceilings of shortage / 16 and shortage / 8, each taken
  only for a positive shortage.
\<close>

lemma fallback_cost_in_range:
  assumes "i = max 0 (dc_inputs - controller_inputs)" "out = max 0 (dc_outputs - controller_outputs)"
    and "i < 2 ^ 53" "out < 2 ^ 53"
    and no1: "\<not> (\<exists>m\<in>set expansion_modules. mod_inputs m \<ge> i \<and> mod_outputs m \<ge> out)"
    and no2: "\<not> (\<exists>m1\<in>set expansion_modules. \<exists>m2\<in>set expansion_modules.
                mod_inputs m1 + mod_inputs m2 \<ge> i \<and> mod_outputs m1 + mod_outputs m2 \<ge> out)"
  shows "\<exists>e. calculate_expansion_for_dc dc_inputs dc_outputs controller_inputs controller_outputs = Inr e \<and>
             expansion_cost e =
               (if i > 0 then 470 * (- ((- i) div 16)) else 0) +
               (if out > 0 then 470 * (- ((- out) div 8)) else 0)"
proof -
  have pos: "0 \<le> i" "0 \<le> out" using assms(1,2) by simp_all
  have no: "\<forall>c\<in>single_candidates \<union> pair_candidates. \<not> covers i out c"
    using no1 no2
    by (auto simp: single_candidates_def pair_candidates_def covers_single_candidate
        covers_pair_candidate)
  have nz: "\<not> (i = 0 \<and> out = 0)"
    using inputs_pair_covers [of i out] no by auto
  from pos nz have "calculate_expansion_for_dc i out 0 0 = specialized_modules i out"
  proof (cases rule: expansion_cases)
    case (found c)
    with no show ?thesis by blast
  next
    case fallback
    then show ?thesis by simp
  qed
  then have eq: "calculate_expansion_for_dc dc_inputs dc_outputs controller_inputs controller_outputs =
             specialized_modules i out"
    using expansion_depends_on_shortage [of dc_inputs dc_outputs controller_inputs controller_outputs]
      assms(1,2) by simp
  have a: "units_needed i 16 = Inr (if i > 0 then - ((- i) div 16) else 0)"
    using assms(3) by (simp add: units_needed_def ceil_true_div_small)
  have b: "units_needed out 8 = Inr (if out > 0 then - ((- out) div 8) else 0)"
    using assms(4) by (simp add: units_needed_def ceil_true_div_small)
  from specialized_modules_units [OF a b] eq show ?thesis by auto
qed

lemma round_to_double_half:
  assumes "0 \<le> s"
  shows "s \<le> 2 * round_to_double s"
proof -
  define e where "e = float_exponent s"
  define q where "q = s div 2 ^ e"
  have lo: "q * 2 ^ e \<le> round_to_double s"
    using round_to_double_bounds [of s] unfolding q_def e_def by simp
  have s: "s = q * 2 ^ e + s mod 2 ^ e" unfolding q_def by (rule div_mult_mod_eq [symmetric])
  have r: "s mod 2 ^ e < 2 ^ e" by simp
  show ?thesis
  proof (cases "0 < e")
    case True
    then have "2 ^ 52 \<le> q" unfolding q_def e_def by (rule float_exponent_quotient_lower)
    then have "1 \<le> q" by simp
    then have "1 * 2 ^ e \<le> q * (2::int) ^ e" by (intro mult_right_mono) simp_all
    with s r lo show ?thesis by linarith
  next
    case False
    then have "e = 0" by simp
    with s have "s = q" by simp
    with lo \<open>e = 0\<close> assms show ?thesis by simp
  qed
qed

lemma ceil_true_div_overflow:
  assumes "0 < d" "2 ^ 1025 * d \<le> s"
  shows "ceil_true_div s d = Inl OverflowError"
proof -
  have "(0::int) \<le> 2 ^ 1025 * d" using assms(1) by simp
  with assms(2) have "0 \<le> s" by linarith
  then have "s \<le> 2 * round_to_double s" by (rule round_to_double_half)
  moreover have "(2::int) ^ 1025 * d = 2 * (2 ^ 1024 * d)" by simp
  ultimately have "2 ^ 1024 * d \<le> round_to_double s" using assms(2) by linarith
  then show ?thesis by (simp add: ceil_true_div_def)
qed

text \<open>
  From an input shortage of \<open>2 ^ 1029\<close> on, the float division raises \<open>OverflowError\<close>.
\<close>

lemma fallback_overflow:
  assumes "2 ^ 1029 \<le> i"
  shows "calculate_expansion_for_dc i 0 0 0 = Inl OverflowError"
proof -
  have big: "(33::int) \<le> 2 ^ 1029" by simp
  with assms have i: "33 \<le> i" by linarith
  have "best_cost (search_modules i 0) = Infinity"
  proof (rule search_modules_none, intro ballI notI)
    fix c assume "c \<in> single_candidates \<union> pair_candidates" "covers i 0 c"
    from candidate_inputs [OF this] i show False by simp
  qed
  then have "calculate_expansion_for_dc i 0 0 0 = specialized_modules i 0"
    using calculate_expansion_fallback [of i 0 0 0] i by simp
  moreover have "(2::int) ^ 1025 * 16 = 2 ^ 1029" by simp
  then have "ceil_true_div i 16 = Inl OverflowError"
    using ceil_true_div_overflow [of 16 i] assms by simp
  ultimately show ?thesis
    using i by (simp add: specialized_modules_def add_input_modules_def)
qed

section \<open>Monotonicity of the line cost\<close>

lemma increase_demand:
  assumes "f \<noteq> Smart_card" "f \<noteq> Fingerprint"
  shows "readers (calculate_totals (increase f t)) = readers (calculate_totals t) \<and>
         inputs (calculate_totals t) \<le> inputs (calculate_totals (increase f t)) \<and>
         outputs (calculate_totals t) \<le> outputs (calculate_totals (increase f t))"
  using assms by (cases f) (simp_all add: calculate_totals_def)

lemma single_line_unfold:
  assumes "select_controllers_for_dc (calculate_totals t) = Some ci"
  shows "calculate_single_dc_line t = Inr (Some r) \<longleftrightarrow>
         (\<exists>e. calculate_expansion_for_dc (inputs (calculate_totals t)) (outputs (calculate_totals t))
                 (inputs_provided ci) (outputs_provided ci) = Inr e \<and>
              r = \<lparr>line_dc_number = dc_number t, requirements = calculate_totals t,
                    controllers = ci, expansion = e,
                    total_cost = cost ci + expansion_cost e\<rparr>)"
  using assms
  by (auto simp: calculate_single_dc_line_def calculate_single_dc_line_with_def Let_def
      split: sum.splits)

text \<open>
  Claim C2, as the code has it. For each of the nine tallies that are not readers, raising
  the tally by one never lowers the total cost of the line: whenever the line with the
  raised tally has a result, the original line has one too, and its total cost is not
  larger. The controllers are the same on both sides, and the expansion cost is monotone in
  the two shortages.
\<close>

theorem non_reader_tally_monotone:
  assumes "f \<noteq> Smart_card" "f \<noteq> Fingerprint"
    and r': "calculate_single_dc_line (increase f t) = Inr (Some r')"
  shows "\<exists>r. calculate_single_dc_line t = Inr (Some r) \<and> total_cost r \<le> total_cost r'"
proof -
  let ?d = "calculate_totals t" and ?d' = "calculate_totals (increase f t)"
  from increase_demand [OF assms(1,2), of t]
  have rd: "readers ?d' = readers ?d" and inp: "inputs ?d \<le> inputs ?d'"
    and outp: "outputs ?d \<le> outputs ?d'" by simp_all
  obtain ci where ci: "select_controllers_for_dc ?d = Some ci"
    by (rule select_controllers_result [of ?d]) simp
  have "select_controllers_for_dc ?d' = select_controllers_for_dc ?d"
    using rd by (simp add: select_controllers_for_dc_def)
  with ci have ci': "select_controllers_for_dc ?d' = Some ci" by simp
  from r' single_line_unfold [OF ci'] obtain e' where
    e': "calculate_expansion_for_dc (inputs ?d') (outputs ?d')
           (inputs_provided ci) (outputs_provided ci) = Inr e'"
    and tot': "total_cost r' = cost ci + expansion_cost e'"
    by auto
  define i where "i = max 0 (inputs ?d - inputs_provided ci)"
  define i' where "i' = max 0 (inputs ?d' - inputs_provided ci)"
  define out where "out = max 0 (outputs ?d - outputs_provided ci)"
  define out' where "out' = max 0 (outputs ?d' - outputs_provided ci)"
  have le: "0 \<le> i" "i \<le> i'" "0 \<le> out" "out \<le> out'"
    using inp outp unfolding i_def i'_def out_def out'_def by simp_all
  have "calculate_expansion_for_dc i' out' 0 0 = Inr e'"
    using e' expansion_depends_on_shortage [of "inputs ?d'" "outputs ?d'"
        "inputs_provided ci" "outputs_provided ci"]
    unfolding i'_def out'_def by simp
  from expansion_mono [OF le this] obtain e where
    e: "calculate_expansion_for_dc i out 0 0 = Inr e" "expansion_cost e \<le> expansion_cost e'"
    by blast
  have "calculate_expansion_for_dc (inputs ?d) (outputs ?d)
           (inputs_provided ci) (outputs_provided ci) = Inr e"
    using e(1) expansion_depends_on_shortage [of "inputs ?d" "outputs ?d"
        "inputs_provided ci" "outputs_provided ci"]
    unfolding i_def out_def by simp
  with single_line_unfold [OF ci]
  have "calculate_single_dc_line t =
          Inr (Some \<lparr>line_dc_number = dc_number t, requirements = ?d, controllers = ci,
                     expansion = e, total_cost = cost ci + expansion_cost e\<rparr>)"
    by simp
  with e(2) tot' show ?thesis by simp
qed

lemma eval_line_3_readers_13_sensors:
  "calculate_single_dc_line (increase Door_sensor (empty_line\<lparr>smart_card := 3, door_sensor := 12\<rparr>)) =
     Inr (Some \<lparr>line_dc_number = 1,
                requirements = \<lparr>readers = 3, inputs = 13, outputs = 0\<rparr>,
                controllers = \<lparr>kt_400 = 0, kt_2 = 1, kt_1 = 1, readers_provided = 3, cost = 1200,
                               extra_readers = 0, inputs_provided = 12, outputs_provided = 4\<rparr>,
                expansion = \<lparr>modules = [''inout16 (16/0)''], expansion_cost = 447\<rparr>,
                total_cost = 1647\<rparr>)"
  by code_simp

text \<open>
  The theorem at a line with 3 readers whose door sensors go from 12 to 13.
\<close>

theorem non_reader_tally_monotone_witness:
  "\<exists>r. calculate_single_dc_line (empty_line\<lparr>smart_card := 3, door_sensor := 12\<rparr>) = Inr (Some r) \<and>
       total_cost r \<le> 1647"
  using non_reader_tally_monotone [OF _ _ eval_line_3_readers_13_sensors] by simp

text \<open>
  Claim C2, as stated, fails for a reader tally: with 3 smart-card readers and 16 door
  sensors the line costs 1200 + 447 = 1647; a fourth reader selects one kt-400, whose 16
  inputs remove the expansion module, and the line costs 1400.
\<close>

theorem tally_monotone_counterexample:
  "calculate_single_dc_line (empty_line\<lparr>smart_card := 3, door_sensor := 16\<rparr>) =
     Inr (Some \<lparr>line_dc_number = 1,
                requirements = \<lparr>readers = 3, inputs = 16, outputs = 0\<rparr>,
                controllers = \<lparr>kt_400 = 0, kt_2 = 1, kt_1 = 1, readers_provided = 3, cost = 1200,
                               extra_readers = 0, inputs_provided = 12, outputs_provided = 4\<rparr>,
                expansion = \<lparr>modules = [''inout16 (16/0)''], expansion_cost = 447\<rparr>,
                total_cost = 1647\<rparr>) \<and>
   calculate_single_dc_line (increase Smart_card (empty_line\<lparr>smart_card := 3, door_sensor := 16\<rparr>)) =
     Inr (Some \<lparr>line_dc_number = 1,
                requirements = \<lparr>readers = 4, inputs = 16, outputs = 0\<rparr>,
                controllers = \<lparr>kt_400 = 1, kt_2 = 0, kt_1 = 0, readers_provided = 4, cost = 1400,
                               extra_readers = 0, inputs_provided = 16, outputs_provided = 4\<rparr>,
                expansion = \<lparr>modules = [], expansion_cost = 0\<rparr>,
                total_cost = 1400\<rparr>) \<and>
   \<not> (1647 \<le> (1400::int))"
  by code_simp

section \<open>The License Resolver\<close>

text \<open>
  Claim C3. With at least one controller: redundancy gives the tier "global" with exactly
  the gateway (500) and redundancy (750) add-ons and a license cost of 1250, whatever the
  controller count; without redundancy, at most 32 controllers give "special" and more
  than 32 give "corporate", both without add-ons at cost 0. With zero controllers no
  license result is produced.
\<close>

theorem license_tiers:
  "(total_controllers ct = 0 \<longrightarrow> license_decision ct redundancy = None) \<and>
   (1 \<le> total_controllers ct \<longrightarrow>
      license_decision ct True =
        Some \<lparr>license_total_controllers = total_controllers ct, primary_license = ''global'',
              use_redundancy = True,
              additional_licenses =
                [\<lparr>license_name = ''Gateway License'', license_cost = 500\<rparr>,
                 \<lparr>license_name = ''Redundancy License'', license_cost = 750\<rparr>],
              total_license_cost = 1250, controller_breakdown = ct\<rparr>) \<and>
   (1 \<le> total_controllers ct \<and> total_controllers ct \<le> 32 \<longrightarrow>
      license_decision ct False =
        Some \<lparr>license_total_controllers = total_controllers ct, primary_license = ''special'',
              use_redundancy = False, additional_licenses = [], total_license_cost = 0,
              controller_breakdown = ct\<rparr>) \<and>
   (32 < total_controllers ct \<longrightarrow>
      license_decision ct False =
        Some \<lparr>license_total_controllers = total_controllers ct, primary_license = ''corporate'',
              use_redundancy = False, additional_licenses = [], total_license_cost = 0,
              controller_breakdown = ct\<rparr>)"
  by (simp add: license_decision_def Let_def license_info_gateway_def license_info_redundancy_def)

text \<open>
  The theorem at the boundary: 32 controllers are "special", 33 are "corporate", redundancy
  at 33 is "global", and zero controllers give no result.
\<close>

theorem license_tiers_witness:
  "primary_license (the (license_decision
      \<lparr>total_controllers = 32, sum_kt_400 = 0, sum_kt_2 = 32, sum_kt_1 = 0, breakdown = None\<rparr> False))
     = ''special'' \<and>
   primary_license (the (license_decision
      \<lparr>total_controllers = 33, sum_kt_400 = 0, sum_kt_2 = 33, sum_kt_1 = 0, breakdown = None\<rparr> False))
     = ''corporate'' \<and>
   primary_license (the (license_decision
      \<lparr>total_controllers = 33, sum_kt_400 = 0, sum_kt_2 = 33, sum_kt_1 = 0, breakdown = None\<rparr> True))
     = ''global'' \<and>
   license_decision
      \<lparr>total_controllers = 0, sum_kt_400 = 0, sum_kt_2 = 0, sum_kt_1 = 0, breakdown = None\<rparr> True
     = None"
  using
    license_tiers [of "\<lparr>total_controllers = 32, sum_kt_400 = 0, sum_kt_2 = 32, sum_kt_1 = 0, breakdown = None\<rparr>" False]
    license_tiers [of "\<lparr>total_controllers = 33, sum_kt_400 = 0, sum_kt_2 = 33, sum_kt_1 = 0, breakdown = None\<rparr>" False]
    license_tiers [of "\<lparr>total_controllers = 0, sum_kt_400 = 0, sum_kt_2 = 0, sum_kt_1 = 0, breakdown = None\<rparr>" True]
  by simp

section \<open>The Fleet Aggregator\<close>

lemma single_line_result:
  "calculate_single_dc_line l \<noteq> Inr None"
proof -
  have "select_controllers_for_dc (calculate_totals l) \<noteq> None"
    by (rule select_controllers_result [of "calculate_totals l"]) simp
  then show ?thesis
    by (auto simp: calculate_single_dc_line_def calculate_single_dc_line_with_def Let_def
        split: option.splits sum.splits)
qed

lemma collect_results_map:
  "collect_results select_controllers_for_dc ls = Inr rs \<longleftrightarrow>
   map calculate_single_dc_line ls = map (\<lambda>r. Inr (Some r)) rs"
proof (induction ls arbitrary: rs)
  case Nil
  then show ?case by auto
next
  case (Cons l ls)
  show ?case
  proof (cases "calculate_single_dc_line l")
    case (Inl e)
    then show ?thesis by (auto simp: calculate_single_dc_line_def)
  next
    case (Inr x)
    with single_line_result [of l] obtain r where r: "calculate_single_dc_line l = Inr (Some r)"
      by (cases x) auto
    show ?thesis
    proof (cases "collect_results select_controllers_for_dc ls")
      case (Inl e)
      with Cons.IH have "\<And>rs'. map calculate_single_dc_line ls \<noteq> map (\<lambda>r. Inr (Some r)) rs'"
        by auto
      with Inl r show ?thesis
        by (cases rs) (auto simp: calculate_single_dc_line_def)
    next
      case (Inr rs0)
      with Cons.IH [of rs0] have m: "map calculate_single_dc_line ls = map (\<lambda>r. Inr (Some r)) rs0"
        by simp
      have inj: "map (\<lambda>r. Inr (Some r) :: error + line_result option) rs0 = map (\<lambda>r. Inr (Some r)) rs'
                 \<longleftrightarrow> rs0 = rs'" for rs'
        by (auto simp: inj_on_def dest!: map_inj_on [where f = "\<lambda>r. Inr (Some r)"])
      from Inr r m inj show ?thesis
        by (cases rs) (auto simp: calculate_single_dc_line_def)
    qed
  qed
qed

lemma fold_accumulate:
  "fold accumulate rs acc =
     \<lparr>grand_total_cost = grand_total_cost acc + (\<Sum>r\<leftarrow>rs. total_cost r),
      total_kt400 = total_kt400 acc + (\<Sum>r\<leftarrow>rs. kt_400 (controllers r)),
      total_kt2 = total_kt2 acc + (\<Sum>r\<leftarrow>rs. kt_2 (controllers r)),
      total_kt1 = total_kt1 acc + (\<Sum>r\<leftarrow>rs. kt_1 (controllers r)),
      total_expansion_cost = total_expansion_cost acc + (\<Sum>r\<leftarrow>rs. expansion_cost (expansion r))\<rparr>"
proof (induction rs arbitrary: acc)
  case Nil
  then show ?case by simp
next
  case (Cons r rs)
  have step: "fold accumulate (r # rs) acc = fold accumulate rs (accumulate r acc)" by simp
  show ?case unfolding step Cons.IH by (simp add: accumulate_def)
qed

lemma all_dc_lines_characterisation:
  "calculate_all_dc_lines dc_lines = Inr (Some fleet) \<longleftrightarrow>
     dc_lines \<noteq> [] \<and>
     map calculate_single_dc_line dc_lines = map (\<lambda>r. Inr (Some r)) (all_results fleet) \<and>
     grand_total_cost fleet = (\<Sum>r\<leftarrow>all_results fleet. total_cost r) \<and>
     total_kt400 fleet = (\<Sum>r\<leftarrow>all_results fleet. kt_400 (controllers r)) \<and>
     total_kt2 fleet = (\<Sum>r\<leftarrow>all_results fleet. kt_2 (controllers r)) \<and>
     total_kt1 fleet = (\<Sum>r\<leftarrow>all_results fleet. kt_1 (controllers r)) \<and>
     total_expansion_cost fleet = (\<Sum>r\<leftarrow>all_results fleet. expansion_cost (expansion r))"
  (is "?L \<longleftrightarrow> ?R")
proof
  assume l: ?L
  then have ne: "dc_lines \<noteq> []"
    by (auto simp: calculate_all_dc_lines_def calculate_all_dc_lines_with_def)
  from l ne obtain rs where rs: "collect_results select_controllers_for_dc dc_lines = Inr rs"
    and fl: "fleet = fleet_totals.extend
                (fold accumulate rs
                   \<lparr>grand_total_cost = 0, total_kt400 = 0, total_kt2 = 0, total_kt1 = 0,
                    total_expansion_cost = 0\<rparr>)
                (fleet_result.fields rs)"
    by (auto simp: calculate_all_dc_lines_def calculate_all_dc_lines_with_def
        split: sum.splits if_splits)
  from fl have "all_results fleet = rs"
    by (simp add: fleet_totals.extend_def fleet_result.fields_def)
  with rs fl ne show ?R
    by (simp add: collect_results_map fold_accumulate fleet_totals.extend_def
        fleet_result.fields_def)
next
  assume r: ?R
  then have rs: "collect_results select_controllers_for_dc dc_lines = Inr (all_results fleet)"
    by (simp add: collect_results_map)
  from r have "all_results fleet \<noteq> []" by auto
  moreover have "fleet = fleet_totals.extend
                (fold accumulate (all_results fleet)
                   \<lparr>grand_total_cost = 0, total_kt400 = 0, total_kt2 = 0, total_kt1 = 0,
                    total_expansion_cost = 0\<rparr>)
                (fleet_result.fields (all_results fleet))"
    using r by (cases fleet) (simp add: fold_accumulate fleet_totals.extend_def
        fleet_result.fields_def)
  ultimately show ?L using r rs
    by (simp add: calculate_all_dc_lines_def calculate_all_dc_lines_with_def)
qed

lemma replicate_results:
  "map calculate_single_dc_line (replicate n l) = map (\<lambda>r. Inr (Some r)) (replicate n r)
   \<longleftrightarrow> n = 0 \<or> calculate_single_dc_line l = Inr (Some r)"
  by (induction n) auto

text \<open>
  Claim C8. The Fleet Aggregator returns a Fleet Result exactly when the fleet is not empty
  and every line, computed on its own by \<open>calculate_single_dc_line\<close>, has a result; the
  results it stores are these per-line results in order (so no line's result depends on
  another line), and the per-variant controller counts, the expansion cost and the grand
  total are their elementwise sums. Hence \<open>n\<close> identical lines have a grand total of \<open>n\<close>
  times the single-line total.
\<close>

theorem fleet_totals_are_sums:
  "(calculate_all_dc_lines dc_lines = Inr (Some fleet) \<longleftrightarrow>
      dc_lines \<noteq> [] \<and>
      map calculate_single_dc_line dc_lines = map (\<lambda>r. Inr (Some r)) (all_results fleet) \<and>
      grand_total_cost fleet = (\<Sum>r\<leftarrow>all_results fleet. total_cost r) \<and>
      total_kt400 fleet = (\<Sum>r\<leftarrow>all_results fleet. kt_400 (controllers r)) \<and>
      total_kt2 fleet = (\<Sum>r\<leftarrow>all_results fleet. kt_2 (controllers r)) \<and>
      total_kt1 fleet = (\<Sum>r\<leftarrow>all_results fleet. kt_1 (controllers r)) \<and>
      total_expansion_cost fleet = (\<Sum>r\<leftarrow>all_results fleet. expansion_cost (expansion r))) \<and>
   (0 < n \<and> calculate_single_dc_line l = Inr (Some r) \<longrightarrow>
      (\<exists>fleet'. calculate_all_dc_lines (replicate n l) = Inr (Some fleet') \<and>
         all_results fleet' = replicate n r \<and>
         grand_total_cost fleet' = int n * total_cost r))"
proof (intro conjI impI)
  show "calculate_all_dc_lines dc_lines = Inr (Some fleet) \<longleftrightarrow>
      dc_lines \<noteq> [] \<and>
      map calculate_single_dc_line dc_lines = map (\<lambda>r. Inr (Some r)) (all_results fleet) \<and>
      grand_total_cost fleet = (\<Sum>r\<leftarrow>all_results fleet. total_cost r) \<and>
      total_kt400 fleet = (\<Sum>r\<leftarrow>all_results fleet. kt_400 (controllers r)) \<and>
      total_kt2 fleet = (\<Sum>r\<leftarrow>all_results fleet. kt_2 (controllers r)) \<and>
      total_kt1 fleet = (\<Sum>r\<leftarrow>all_results fleet. kt_1 (controllers r)) \<and>
      total_expansion_cost fleet = (\<Sum>r\<leftarrow>all_results fleet. expansion_cost (expansion r))"
    by (rule all_dc_lines_characterisation)
next
  assume a: "0 < n \<and> calculate_single_dc_line l = Inr (Some r)"
  define fleet' :: fleet_result where
    "fleet' = \<lparr>grand_total_cost = int n * total_cost r,
               total_kt400 = int n * kt_400 (controllers r),
               total_kt2 = int n * kt_2 (controllers r),
               total_kt1 = int n * kt_1 (controllers r),
               total_expansion_cost = int n * expansion_cost (expansion r),
               all_results = replicate n r\<rparr>"
  have sums: "sum_list (replicate n c) = int n * c" for c :: int
    by (induction n) (simp_all add: algebra_simps)
  have "calculate_all_dc_lines (replicate n l) = Inr (Some fleet')"
    unfolding all_dc_lines_characterisation
    using a by (simp add: fleet'_def replicate_results sums)
  moreover have "all_results fleet' = replicate n r" "grand_total_cost fleet' = int n * total_cost r"
    by (simp_all add: fleet'_def)
  ultimately show "\<exists>fleet'. calculate_all_dc_lines (replicate n l) = Inr (Some fleet') \<and>
         all_results fleet' = replicate n r \<and>
         grand_total_cost fleet' = int n * total_cost r"
    by blast
qed

lemma eval_line_2_2_2:
  "calculate_single_dc_line (empty_line\<lparr>smart_card := 2, door_sensor := 2, magnetic_lock := 2\<rparr>) =
     Inr (Some \<lparr>line_dc_number = 1,
                requirements = \<lparr>readers = 2, inputs = 4, outputs = 2\<rparr>,
                controllers = \<lparr>kt_400 = 0, kt_2 = 1, kt_1 = 0, readers_provided = 2, cost = 750,
                               extra_readers = 0, inputs_provided = 8, outputs_provided = 2\<rparr>,
                expansion = \<lparr>modules = [], expansion_cost = 0\<rparr>,
                total_cost = 750\<rparr>)"
  by code_simp


text \<open>
  The theorem at three identical lines with two smart-card readers, two door sensors and two
  magnetic locks: 3 times 750.
\<close>

theorem fleet_totals_are_sums_witness:
  "\<exists>fleet. calculate_all_dc_lines
      (replicate 3 (empty_line\<lparr>smart_card := 2, door_sensor := 2, magnetic_lock := 2\<rparr>)) =
        Inr (Some fleet) \<and>
      length (all_results fleet) = 3 \<and> grand_total_cost fleet = 3 * 750"
proof -
  define l where "l = empty_line\<lparr>smart_card := 2, door_sensor := 2, magnetic_lock := 2\<rparr>"
  define r where "r = \<lparr>line_dc_number = 1,
                requirements = \<lparr>readers = 2, inputs = 4, outputs = 2\<rparr>,
                controllers = \<lparr>kt_400 = 0, kt_2 = 1, kt_1 = 0, readers_provided = 2, cost = 750,
                               extra_readers = 0, inputs_provided = 8, outputs_provided = 2\<rparr>,
                expansion = \<lparr>modules = [], expansion_cost = 0\<rparr>,
                total_cost = 750\<rparr>"
  have h: "0 < (3::nat) \<and> calculate_single_dc_line l = Inr (Some r)"
    unfolding l_def r_def using eval_line_2_2_2 by simp
  from fleet_totals_are_sums [where n = 3 and l = l and r = r] h
  have "\<exists>fleet'. calculate_all_dc_lines (replicate 3 l) = Inr (Some fleet') \<and>
         all_results fleet' = replicate 3 r \<and>
         grand_total_cost fleet' = int 3 * total_cost r"
    by blast
  then obtain fleet where f: "calculate_all_dc_lines (replicate 3 l) = Inr (Some fleet)"
    "all_results fleet = replicate 3 r" "grand_total_cost fleet = int 3 * total_cost r"
    by blast
  have "total_cost r = 750" by (simp add: r_def)
  with f show ?thesis unfolding l_def by (intro exI [of _ fleet]) simp
qed

subsection \<open>Lines without an allocation\<close>

text \<open>
  The guards of the callers pass over a line for which the selector parameter gives no
  allocation.
\<close>

lemma single_line_without_allocation:
  "select (calculate_totals l) = None \<Longrightarrow> calculate_single_dc_line_with select l = Inr None"
  by (simp add: calculate_single_dc_line_with_def)

lemma collect_results_skip:
  "select (calculate_totals l) = None \<Longrightarrow>
   collect_results select (before @ l # after) = collect_results select (before @ after)"
  by (induction before) (simp_all add: single_line_without_allocation split: sum.splits option.splits)

lemma add_controllers_skip:
  "select (calculate_totals l) = None \<Longrightarrow>
   fold (add_controllers select) (before @ l # after) acc =
   fold (add_controllers select) (before @ after) acc"
proof -
  assume "select (calculate_totals l) = None"
  then have "add_controllers select l acc' = acc'" for acc'
    by (cases acc') (simp add: add_controllers_def)
  then show ?thesis by simp
qed

text \<open>
  With the Controller Selector of the code every line has an allocation, so a Fleet Result
  holds one Line Result per line: none is left out of the totals.
\<close>

lemma fleet_result_has_every_line:
  "calculate_all_dc_lines dc_lines = Inr (Some fleet) \<Longrightarrow>
   length (all_results fleet) = length dc_lines"
proof -
  assume "calculate_all_dc_lines dc_lines = Inr (Some fleet)"
  then have "map calculate_single_dc_line dc_lines = map (\<lambda>r. Inr (Some r)) (all_results fleet)"
    by (simp add: all_dc_lines_characterisation)
  then have "length (map calculate_single_dc_line dc_lines) =
             length (map (\<lambda>r. Inr (Some r) :: error + line_result option) (all_results fleet))"
    by simp
  then show ?thesis by simp
qed

end
